theory Spec2Isabelle
  imports Main "HOL-Library.AList" "HOL-Library.Product_Lexorder"
begin

section \<open>The crossword problem graph\<close>

text \<open>
  Modelled from the spec: the classes \<open>Variable\<close> and \<open>Crossword\<close> live in
  \<^verbatim>\<open>crossword.py\<close>, which is not among the sources; \<^verbatim>\<open>generate.py\<close> only uses them.
  A variable is a placement: start coordinates, an orientation tag and a fixed length;
  two variables are equal iff all four fields are.
\<close>

datatype direction = ACROSS | DOWN

datatype Variable =
  Variable (var_i: nat) (var_j: nat) (var_direction: direction) (var_length: nat)

text \<open>
  Modelled from the spec: the problem graph that \<^verbatim>\<open>CrosswordCreator\<close> consumes. Python sets
  are lists in their iteration order. \<open>overlaps\<close> is the dictionary
  \<^verbatim>\<open>crossword.overlaps\<close>: a missing key is \<open>None\<close>, a key stored with Python's
  \<^verbatim>\<open>None\<close> is \<open>Some None\<close>, a key stored with an index pair is \<open>Some (Some (i, j))\<close>.
  \<open>neighbors\<close> is the method \<^verbatim>\<open>crossword.neighbors(var)\<close>, taken as given.
\<close>

record Crossword =
  variables :: "Variable list"
  words :: "string list"
  overlaps :: "Variable \<times> Variable \<Rightarrow> (nat \<times> nat) option option"
  neighbors :: "Variable \<Rightarrow> Variable list"

text \<open>
  The contract of the problem graph, as the spec's data model states it: variables and
  vocabulary are sets; the overlap map has an entry for every ordered pair of distinct
  variables and none for a variable with itself; it is symmetric with the indices
  swapped; an overlap index lies inside its variable; the neighbours of a variable are
  the variables it has an index pair with.
\<close>

definition is_pair :: "(nat \<times> nat) option option \<Rightarrow> bool" where
  "is_pair e = (case e of Some (Some p) \<Rightarrow> True | _ \<Rightarrow> False)"

definition wf_crossword :: "Crossword \<Rightarrow> bool" where
  "wf_crossword c \<longleftrightarrow>
     distinct (variables c) \<and> distinct (words c) \<and>
     (\<forall>x \<in> set (variables c). \<forall>y \<in> set (variables c).
        (x = y \<longrightarrow> overlaps c (x, y) = None) \<and>
        (x \<noteq> y \<longrightarrow> overlaps c (x, y) \<noteq> None) \<and>
        (\<forall>i j. overlaps c (x, y) = Some (Some (i, j)) \<longrightarrow>
           overlaps c (y, x) = Some (Some (j, i)) \<and> i < var_length x \<and> j < var_length y)) \<and>
     (\<forall>x \<in> set (variables c).
        distinct (neighbors c x) \<and>
        set (neighbors c x) = set (filter (\<lambda>y. is_pair (overlaps c (x, y))) (variables c)))"

section \<open>Python values and exceptions\<close>

datatype error = IndexError | KeyError | TypeError | ValueError

text \<open>\<^verbatim>\<open>s[i]\<close> on a string, for a non-negative index.\<close>

definition getitem :: "'a list \<Rightarrow> nat \<Rightarrow> error + 'a" where
  "getitem s i = (if i < length s then Inr (s ! i) else Inl IndexError)"

text \<open>\<^verbatim>\<open>d[k]\<close> on a dictionary held as an association list in insertion order.\<close>

definition lookup :: "('k \<times> 'v) list \<Rightarrow> 'k \<Rightarrow> error + 'v" where
  "lookup d k = (case map_of d k of None \<Rightarrow> Inl KeyError | Some v \<Rightarrow> Inr v)"

text \<open>\<^verbatim>\<open>s.remove(w)\<close> on a set: \<^verbatim>\<open>KeyError\<close> when \<open>w\<close> is not a member.\<close>

definition set_remove :: "'a \<Rightarrow> 'a list \<Rightarrow> error + 'a list" where
  "set_remove w s = (if w \<in> set s then Inr (removeAll w s) else Inl KeyError)"

section \<open>The creator and its domain store\<close>

record CrosswordCreator =
  crossword :: Crossword
  domains :: "(Variable \<times> string list) list"

text \<open>\<^verbatim>\<open>__init__\<close>: every variable starts with a copy of the whole vocabulary.\<close>

definition init :: "Crossword \<Rightarrow> CrosswordCreator" where
  "init c = \<lparr>crossword = c, domains = map (\<lambda>var. (var, words c)) (variables c)\<rparr>"

subsection \<open>Node consistency\<close>

text \<open>
  The inner loop of \<^verbatim>\<open>enforce_node_consistency\<close>: it runs over a copy of the domain of
  \<open>var\<close> and removes from the stored domain each word of the wrong length.
\<close>

fun node_words :: "Variable \<Rightarrow> string list \<Rightarrow> CrosswordCreator \<Rightarrow> error + CrosswordCreator" where
  "node_words var [] st = Inr st"
| "node_words var (word # rest) st =
     (if length word \<noteq> var_length var then
        (case lookup (domains st) var of
           Inl e \<Rightarrow> Inl e
         | Inr d \<Rightarrow>
            (case set_remove word d of
               Inl e \<Rightarrow> Inl e
             | Inr d' \<Rightarrow> node_words var rest (st\<lparr>domains := AList.update var d' (domains st)\<rparr>)))
      else node_words var rest st)"

text \<open>The outer loop, over the keys of \<^verbatim>\<open>self.domains\<close>.\<close>

fun node_vars :: "Variable list \<Rightarrow> CrosswordCreator \<Rightarrow> error + CrosswordCreator" where
  "node_vars [] st = Inr st"
| "node_vars (var # rest) st =
     (case lookup (domains st) var of
        Inl e \<Rightarrow> Inl e
      | Inr d \<Rightarrow>
         (case node_words var d st of
            Inl e \<Rightarrow> Inl e
          | Inr st' \<Rightarrow> node_vars rest st'))"

definition enforce_node_consistency :: "CrosswordCreator \<Rightarrow> error + CrosswordCreator" where
  "enforce_node_consistency st = node_vars (map fst (domains st)) st"

subsection \<open>Arc consistency\<close>

text \<open>
  The generator inside \<^verbatim>\<open>any(...)\<close> of \<^verbatim>\<open>revise\<close>: it stops at the first word of
  \<open>y\<close>'s domain that agrees, and an index out of range raises.
\<close>

fun any_agree :: "string \<Rightarrow> nat \<Rightarrow> nat \<Rightarrow> string list \<Rightarrow> error + bool" where
  "any_agree x_word overlaps_x overlaps_y [] = Inr False"
| "any_agree x_word overlaps_x overlaps_y (y_word # rest) =
     (case getitem x_word overlaps_x of
        Inl e \<Rightarrow> Inl e
      | Inr a \<Rightarrow>
         (case getitem y_word overlaps_y of
            Inl e \<Rightarrow> Inl e
          | Inr b \<Rightarrow> if a = b then Inr True else any_agree x_word overlaps_x overlaps_y rest))"

text \<open>
  The loop of \<^verbatim>\<open>revise\<close> over a copy of \<open>x\<close>'s domain; \<^verbatim>\<open>self.domains[y]\<close> is read
  afresh for every word.
\<close>

fun revise_words ::
  "Variable \<Rightarrow> Variable \<Rightarrow> nat \<Rightarrow> nat \<Rightarrow> string list \<Rightarrow> bool \<Rightarrow> CrosswordCreator
     \<Rightarrow> error + (bool \<times> CrosswordCreator)" where
  "revise_words x y overlaps_x overlaps_y [] revised st = Inr (revised, st)"
| "revise_words x y overlaps_x overlaps_y (x_word # rest) revised st =
     (case lookup (domains st) y of
        Inl e \<Rightarrow> Inl e
      | Inr dy \<Rightarrow>
         (case any_agree x_word overlaps_x overlaps_y dy of
            Inl e \<Rightarrow> Inl e
          | Inr True \<Rightarrow> revise_words x y overlaps_x overlaps_y rest revised st
          | Inr False \<Rightarrow>
             (case lookup (domains st) x of
                Inl e \<Rightarrow> Inl e
              | Inr dx \<Rightarrow>
                 (case set_remove x_word dx of
                    Inl e \<Rightarrow> Inl e
                  | Inr dx' \<Rightarrow>
                     revise_words x y overlaps_x overlaps_y rest True
                       (st\<lparr>domains := AList.update x dx' (domains st)\<rparr>)))))"

definition revise :: "CrosswordCreator \<Rightarrow> Variable \<Rightarrow> Variable \<Rightarrow> error + (bool \<times> CrosswordCreator)" where
  "revise st x y =
     (case overlaps (crossword st) (x, y) of
        None \<Rightarrow> Inl KeyError
      | Some None \<Rightarrow> Inr (False, st)
      | Some (Some (overlaps_x, overlaps_y)) \<Rightarrow>
         (case lookup (domains st) x of
            Inl e \<Rightarrow> Inl e
          | Inr dx \<Rightarrow> revise_words x y overlaps_x overlaps_y dx False st))"

definition dom_size :: "CrosswordCreator \<Rightarrow> nat" where
  "dom_size st = sum_list (map (\<lambda>p. length (snd p)) (domains st))"

definition get_arc_queue :: "CrosswordCreator \<Rightarrow> Variable option \<Rightarrow> (Variable \<times> Variable) list" where
  "get_arc_queue st var =
     (case var of
        Some v \<Rightarrow> map (\<lambda>neighbor. (neighbor, v)) (neighbors (crossword st) v)
      | None \<Rightarrow>
         concat (map (\<lambda>v. map (\<lambda>neighbor. (v, neighbor)) (neighbors (crossword st) v))
                   (variables (crossword st))))"

lemma size_update_less:
  "map_of d k = Some v \<Longrightarrow> length v' < length v \<Longrightarrow>
   sum_list (map (\<lambda>p. length (snd p)) (AList.update k v' d))
     < sum_list (map (\<lambda>p. length (snd p)) d)"
  by (induction d) (auto split: if_splits)

lemma set_remove_length: "set_remove w s = Inr s' \<Longrightarrow> length s' < length s"
  by (auto simp: set_remove_def length_removeAll_less split: if_splits)

lemma lookup_Inr: "lookup d k = Inr v \<longleftrightarrow> map_of d k = Some v"
  by (simp add: lookup_def split: option.splits)

lemma revise_words_size:
  "revise_words x y ix iy ws r st = Inr (r', st') \<Longrightarrow>
   (r \<longrightarrow> r') \<and> dom_size st' \<le> dom_size st \<and>
   (r' \<and> \<not> r \<longrightarrow> dom_size st' < dom_size st) \<and> (\<not> r' \<longrightarrow> st' = st)"
proof (induction ws arbitrary: r st)
  case Nil
  then show ?case by simp
next
  case (Cons w ws)
  from Cons.prems obtain dy b where
    dy: "lookup (domains st) y = Inr dy" and b: "any_agree w ix iy dy = Inr b"
    by (auto split: sum.splits)
  show ?case
  proof (cases b)
    case True
    with Cons.prems dy b have "revise_words x y ix iy ws r st = Inr (r', st')" by simp
    from Cons.IH[OF this] show ?thesis .
  next
    case False
    with Cons.prems dy b obtain dx dx' where
      dx: "lookup (domains st) x = Inr dx" and dx': "set_remove w dx = Inr dx'" and
      rec: "revise_words x y ix iy ws True (st\<lparr>domains := AList.update x dx' (domains st)\<rparr>) = Inr (r', st')"
      by (auto split: sum.splits)
    have lt: "dom_size (st\<lparr>domains := AList.update x dx' (domains st)\<rparr>) < dom_size st"
      using size_update_less[OF dx[unfolded lookup_Inr] set_remove_length[OF dx']]
      by (simp add: dom_size_def)
    from Cons.IH[OF rec] lt show ?thesis by auto
  qed
qed

lemma revise_size:
  assumes "revise st x y = Inr (r, st')"
  shows "(r \<longrightarrow> dom_size st' < dom_size st) \<and> (\<not> r \<longrightarrow> st' = st)"
proof (cases "overlaps (crossword st) (x, y)")
  case None
  with assms show ?thesis by (simp add: revise_def)
next
  case (Some e)
  show ?thesis
  proof (cases e)
    case None
    with Some assms show ?thesis by (simp add: revise_def)
  next
    case (Some p)
    obtain ix iy where p: "p = (ix, iy)" by (cases p)
    from assms \<open>overlaps (crossword st) (x, y) = Some e\<close> Some p obtain dx where
      "revise_words x y ix iy dx False st = Inr (r, st')"
      by (auto simp: revise_def split: sum.splits)
    from revise_words_size[OF this] show ?thesis by auto
  qed
qed

function ac3_loop ::
  "(Variable \<times> Variable) list \<Rightarrow> CrosswordCreator \<Rightarrow> error + (bool \<times> CrosswordCreator)" where
  "ac3_loop [] st = Inr (True, st)"
| "ac3_loop ((x, y) # arcs) st =
     (case revise st x y of
        Inl e \<Rightarrow> Inl e
      | Inr (revised, st') \<Rightarrow>
         if revised then
           (case lookup (domains st') x of
              Inl e \<Rightarrow> Inl e
            | Inr dx \<Rightarrow>
               if length dx = 0 then Inr (False, st')
               else ac3_loop
                      (arcs @ map (\<lambda>neighbor. (neighbor, x))
                                (filter (\<lambda>neighbor. neighbor \<noteq> y) (neighbors (crossword st') x)))
                      st')
         else ac3_loop arcs st')"
  by pat_completeness auto
termination
proof (relation "measures [\<lambda>(arcs, st). dom_size st, \<lambda>(arcs, st). length arcs]")
  show "wf (measures [\<lambda>(arcs, st). dom_size st, \<lambda>(arcs, st). length arcs])" by simp
next
  fix x y arcs st a revised st' dx
  assume "revise st x y = Inr a" "(revised, st') = a" "revised"
  then have "revise st x y = Inr (True, st')" by simp
  from revise_size[OF this]
  show "((arcs @ map (\<lambda>neighbor. (neighbor, x)) (filter (\<lambda>neighbor. neighbor \<noteq> y) (neighbors (crossword st') x)), st'),
          (x, y) # arcs, st) \<in> measures [\<lambda>(arcs, st). dom_size st, \<lambda>(arcs, st). length arcs]"
    by simp
next
  fix x y arcs st a revised st'
  assume "revise st x y = Inr a" "(revised, st') = a" "\<not> revised"
  then have "revise st x y = Inr (False, st')" by simp
  from revise_size[OF this]
  show "((arcs, st'), (x, y) # arcs, st) \<in> measures [\<lambda>(arcs, st). dom_size st, \<lambda>(arcs, st). length arcs]"
    by simp
qed

definition ac3 ::
  "CrosswordCreator \<Rightarrow> (Variable \<times> Variable) list option \<Rightarrow> error + (bool \<times> CrosswordCreator)" where
  "ac3 st arcs =
     (case arcs of
        None \<Rightarrow> ac3_loop (get_arc_queue st None) st
      | Some given \<Rightarrow> ac3_loop given st)"

section \<open>Search\<close>

type_synonym assignment = "(Variable \<times> string) list"

fun check_neighbors ::
  "CrosswordCreator \<Rightarrow> assignment \<Rightarrow> Variable \<Rightarrow> Variable list \<Rightarrow> error + bool" where
  "check_neighbors st assignment var [] = Inr True"
| "check_neighbors st assignment var (neighbor # rest) =
     (case map_of assignment neighbor of
        None \<Rightarrow> check_neighbors st assignment var rest
      | Some neighbor_word \<Rightarrow>
         (case overlaps (crossword st) (var, neighbor) of
            None \<Rightarrow> Inl KeyError
          | Some None \<Rightarrow> Inl TypeError
          | Some (Some (i, j)) \<Rightarrow>
             (case lookup assignment var of
                Inl e \<Rightarrow> Inl e
              | Inr var_word \<Rightarrow>
                 (case getitem var_word i of
                    Inl e \<Rightarrow> Inl e
                  | Inr a \<Rightarrow>
                     (case getitem neighbor_word j of
                        Inl e \<Rightarrow> Inl e
                      | Inr b \<Rightarrow>
                         if a \<noteq> b then Inr False
                         else check_neighbors st assignment var rest)))))"

fun consistent_vars :: "CrosswordCreator \<Rightarrow> assignment \<Rightarrow> Variable list \<Rightarrow> error + bool" where
  "consistent_vars st assignment [] = Inr True"
| "consistent_vars st assignment (var # rest) =
     (case lookup assignment var of
        Inl e \<Rightarrow> Inl e
      | Inr word \<Rightarrow>
         if var_length var \<noteq> length word then Inr False
         else
           (case check_neighbors st assignment var (neighbors (crossword st) var) of
              Inl e \<Rightarrow> Inl e
            | Inr False \<Rightarrow> Inr False
            | Inr True \<Rightarrow> consistent_vars st assignment rest))"

definition consistent :: "CrosswordCreator \<Rightarrow> assignment \<Rightarrow> error + bool" where
  "consistent st assignment =
     (if length (map snd assignment) > length (remdups (map snd assignment)) then Inr False
      else consistent_vars st assignment (map fst assignment))"

fun py_min_from :: "('a \<Rightarrow> 'k::linorder) \<Rightarrow> 'a \<Rightarrow> 'a list \<Rightarrow> 'a" where
  "py_min_from key best [] = best"
| "py_min_from key best (x # xs) =
     (if key x < key best then py_min_from key x xs else py_min_from key best xs)"

definition py_min :: "('a \<Rightarrow> 'k::linorder) \<Rightarrow> 'a list \<Rightarrow> error + 'a" where
  "py_min key xs = (case xs of [] \<Rightarrow> Inl ValueError | x # rest \<Rightarrow> Inr (py_min_from key x rest))"

definition select_unassigned_variable :: "CrosswordCreator \<Rightarrow> assignment \<Rightarrow> error + Variable" where
  "select_unassigned_variable st assignment =
     py_min
       (\<lambda>var. (case map_of (domains st) var of Some d \<Rightarrow> length d | None \<Rightarrow> 0,
               - int (length (neighbors (crossword st) var))))
       (filter (\<lambda>var. var \<notin> set (map fst assignment)) (map fst (domains st)))"

subsection \<open>Value ordering\<close>

text \<open>
  The inner loop of \<^verbatim>\<open>eliminate_values\<close> over one neighbour's domain (already without
  the words in \<open>eliminated\<close>): a word whose overlap character differs from the option's is
  added to the set \<open>eliminated\<close>.
\<close>

fun eliminate_words :: "string \<Rightarrow> nat \<Rightarrow> nat \<Rightarrow> string list \<Rightarrow> string list \<Rightarrow> error + string list" where
  "eliminate_words option i j [] eliminated = Inr eliminated"
| "eliminate_words option i j (value # rest) eliminated =
     (case getitem option i of
        Inl e \<Rightarrow> Inl e
      | Inr a \<Rightarrow>
         (case getitem value j of
            Inl e \<Rightarrow> Inl e
          | Inr b \<Rightarrow>
             if a \<noteq> b then eliminate_words option i j rest (List.insert value eliminated)
             else eliminate_words option i j rest eliminated))"

text \<open>The outer loop, over the neighbours of \<open>var\<close> that the assignment does not hold.\<close>

fun eliminate_neighbors ::
  "CrosswordCreator \<Rightarrow> Variable \<Rightarrow> string \<Rightarrow> Variable list \<Rightarrow> string list \<Rightarrow> error + string list" where
  "eliminate_neighbors st var option [] eliminated = Inr eliminated"
| "eliminate_neighbors st var option (neighbor # rest) eliminated =
     (case overlaps (crossword st) (var, neighbor) of
        None \<Rightarrow> Inl KeyError
      | Some None \<Rightarrow> Inl TypeError
      | Some (Some (i, j)) \<Rightarrow>
         (case lookup (domains st) neighbor of
            Inl e \<Rightarrow> Inl e
          | Inr d \<Rightarrow>
             (case eliminate_words option i j (filter (\<lambda>w. w \<notin> set eliminated) d) eliminated of
                Inl e \<Rightarrow> Inl e
              | Inr eliminated' \<Rightarrow> eliminate_neighbors st var option rest eliminated')))"

definition eliminate_values :: "CrosswordCreator \<Rightarrow> Variable \<Rightarrow> string \<Rightarrow> assignment \<Rightarrow> error + nat" where
  "eliminate_values st var option assignment =
     (case eliminate_neighbors st var option
             (filter (\<lambda>neighbor. neighbor \<notin> set (map fst assignment)) (neighbors (crossword st) var)) [] of
        Inl e \<Rightarrow> Inl e
      | Inr eliminated \<Rightarrow> Inr (length eliminated))"

text \<open>\<^verbatim>\<open>sorted(xs, key=f)\<close>: the keys are computed first, in order; the sort is stable.\<close>

fun keys_of :: "('a \<Rightarrow> error + 'k) \<Rightarrow> 'a list \<Rightarrow> error + 'k list" where
  "keys_of f [] = Inr []"
| "keys_of f (x # xs) =
     (case f x of
        Inl e \<Rightarrow> Inl e
      | Inr k \<Rightarrow> (case keys_of f xs of Inl e \<Rightarrow> Inl e | Inr ks \<Rightarrow> Inr (k # ks)))"

definition sorted_by :: "('a \<Rightarrow> error + 'k::linorder) \<Rightarrow> 'a list \<Rightarrow> error + 'a list" where
  "sorted_by f xs =
     (case keys_of f xs of
        Inl e \<Rightarrow> Inl e
      | Inr ks \<Rightarrow> Inr (map snd (sort_key fst (zip ks xs))))"

definition order_domain_values :: "CrosswordCreator \<Rightarrow> Variable \<Rightarrow> assignment \<Rightarrow> error + string list" where
  "order_domain_values st var assignment =
     (case lookup (domains st) var of
        Inl e \<Rightarrow> Inl e
      | Inr domain_values \<Rightarrow>
         sorted_by (\<lambda>option. eliminate_values st var option assignment) domain_values)"

subsection \<open>Backtracking search\<close>

definition unassigned :: "CrosswordCreator \<Rightarrow> Variable set \<Rightarrow> nat" where
  "unassigned st assigned = length (filter (\<lambda>var. var \<notin> assigned) (map fst (domains st)))"

function (domintros)
  backtrack :: "CrosswordCreator \<Rightarrow> assignment \<Rightarrow> error + (assignment option \<times> CrosswordCreator)"
  and try_words ::
    "CrosswordCreator \<Rightarrow> assignment \<Rightarrow> Variable \<Rightarrow> string list
       \<Rightarrow> error + (assignment option \<times> CrosswordCreator)"
where
  "backtrack st assignment =
     (if length (map fst assignment) = length (variables (crossword st)) then Inr (Some assignment, st)
      else
        (case select_unassigned_variable st assignment of
           Inl e \<Rightarrow> Inl e
         | Inr variable \<Rightarrow>
            (case lookup (domains st) variable of
               Inl e \<Rightarrow> Inl e
             | Inr d \<Rightarrow> try_words st assignment variable d)))"
| "try_words st assignment variable [] = Inr (None, st)"
| "try_words st assignment variable (word # rest) =
     (case consistent st (AList.update variable word assignment) of
        Inl e \<Rightarrow> Inl e
      | Inr True \<Rightarrow>
         (case backtrack st (AList.update variable word assignment) of
            Inl e \<Rightarrow> Inl e
          | Inr (Some result, st') \<Rightarrow> Inr (Some result, st')
          | Inr (None, st') \<Rightarrow> try_words st' assignment variable rest)
      | Inr False \<Rightarrow> try_words st assignment variable rest)"
  by pat_completeness auto


lemma backtrack_try_words_frame_partial:
  "backtrack_try_words_dom (Inl (st, a)) \<Longrightarrow> backtrack st a = Inr (r, st') \<longrightarrow> st' = st"
  "backtrack_try_words_dom (Inr (st, a, v, ws)) \<Longrightarrow> try_words st a v ws = Inr (r, st') \<longrightarrow> st' = st"
proof (induct arbitrary: r st' and r st' rule: backtrack_try_words.pinduct)
  case (1 st a)
  show ?case
    using "1.hyps"(1) "1.hyps"(2)
    by (auto simp: backtrack.psimps split: if_splits sum.splits)
next
  case (2 st a v)
  then show ?case by (simp add: try_words.psimps)
next
  case (3 st a v w rest)
  show ?case
  proof
    assume eq: "try_words st a v (w # rest) = Inr (r, st')"
    from eq "3.hyps"(1) obtain b where b: "consistent st (AList.update v w a) = Inr b"
      by (auto simp: try_words.psimps split: sum.splits)
    show "st' = st"
    proof (cases b)
      case False
      with eq b "3.hyps"(1) have "try_words st a v rest = Inr (r, st')"
        by (simp add: try_words.psimps)
      with "3.hyps"(4)[OF b] False show ?thesis by simp
    next
      case True
      with eq b "3.hyps"(1) obtain res st1 where
        bt: "backtrack st (AList.update v w a) = Inr (res, st1)"
        by (auto simp: try_words.psimps split: sum.splits)
      from "3.hyps"(2)[OF b] True bt have st1: "st1 = st" by simp
      show ?thesis
      proof (cases res)
        case (Some result)
        with eq b True bt "3.hyps"(1) st1 show ?thesis by (simp add: try_words.psimps)
      next
        case None
        with eq b True bt "3.hyps"(1) have "try_words st1 a v rest = Inr (r, st')"
          by (simp add: try_words.psimps)
        with "3.hyps"(3)[OF b _ bt, of res st1] True None st1 show ?thesis by simp
      qed
    qed
  qed
qed

lemma py_min_from_mem: "py_min_from key best xs \<in> set (best # xs)"
  by (induction xs arbitrary: best) (auto split: if_splits)

lemma py_min_mem: "py_min key xs = Inr v \<Longrightarrow> v \<in> set xs"
  using py_min_from_mem[of key] by (auto simp: py_min_def split: list.splits)

lemma select_unassigned_variable_mem:
  "select_unassigned_variable st a = Inr v \<Longrightarrow> v \<in> set (map fst (domains st)) \<and> v \<notin> set (map fst a)"
  unfolding select_unassigned_variable_def by (drule py_min_mem) simp

lemma filter_insert_less:
  "v \<in> set xs \<Longrightarrow> v \<notin> K \<Longrightarrow>
   length (filter (\<lambda>x. x \<notin> insert v K) xs) < length (filter (\<lambda>x. x \<notin> K) xs)"
proof (induction xs)
  case Nil
  then show ?case by simp
next
  case (Cons x xs)
  have le: "length (filter (\<lambda>x. x \<notin> insert v K) xs) \<le> length (filter (\<lambda>x. x \<notin> K) xs)"
    by (induction xs) auto
  from Cons le show ?case by (cases "x = v") auto
qed

lemma unassigned_insert:
  "v \<in> set (map fst (domains st)) \<Longrightarrow> v \<notin> K \<Longrightarrow> unassigned st (insert v K) < unassigned st K"
  unfolding unassigned_def by (rule filter_insert_less)

lemma update_key_set: "fst ` set (AList.update k v al) = insert k (fst ` set al)"
  by (simp add: dom_update)

termination backtrack
proof (relation "measures
    [\<lambda>p. case p of Inl (st, a) \<Rightarrow> 2 * unassigned st (set (map fst a)) + 1
                  | Inr (st, a, v, ws) \<Rightarrow> 2 * unassigned st (insert v (set (map fst a))) + 2,
     \<lambda>p. case p of Inl (st, a) \<Rightarrow> 0 | Inr (st, a, v, ws) \<Rightarrow> length ws]")
  show "wf (measures
    [\<lambda>p. case p of Inl (st, a) \<Rightarrow> 2 * unassigned st (set (map fst a)) + 1
                  | Inr (st, a, v, ws) \<Rightarrow> 2 * unassigned st (insert v (set (map fst a))) + 2,
     \<lambda>p. case p of Inl (st, a) \<Rightarrow> 0 | Inr (st, a, v, ws) \<Rightarrow> length ws])"
    by simp
next
  fix st :: CrosswordCreator and assignment :: assignment and variable d
  assume "select_unassigned_variable st assignment = Inr variable"
  from select_unassigned_variable_mem[OF this]
  have "unassigned st (insert variable (set (map fst assignment))) < unassigned st (set (map fst assignment))"
    by (intro unassigned_insert) auto
  then show "(Inr (st, assignment, variable, d), Inl (st, assignment)) \<in> measures
    [\<lambda>p. case p of Inl (st, a) \<Rightarrow> 2 * unassigned st (set (map fst a)) + 1
                  | Inr (st, a, v, ws) \<Rightarrow> 2 * unassigned st (insert v (set (map fst a))) + 2,
     \<lambda>p. case p of Inl (st, a) \<Rightarrow> 0 | Inr (st, a, v, ws) \<Rightarrow> length ws]"
    by simp
next
  fix st :: CrosswordCreator and assignment :: assignment and variable word and rest :: "string list"
  show "(Inl (st, AList.update variable word assignment), Inr (st, assignment, variable, word # rest)) \<in> measures
    [\<lambda>p. case p of Inl (st, a) \<Rightarrow> 2 * unassigned st (set (map fst a)) + 1
                  | Inr (st, a, v, ws) \<Rightarrow> 2 * unassigned st (insert v (set (map fst a))) + 2,
     \<lambda>p. case p of Inl (st, a) \<Rightarrow> 0 | Inr (st, a, v, ws) \<Rightarrow> length ws]"
    by (simp add: update_key_set)
next
  fix st :: CrosswordCreator and assignment :: assignment and variable word and rest :: "string list"
    and x2 xa y
  assume "backtrack st (AList.update variable word assignment) = Inr x2" "(xa, y) = x2"
    "backtrack_try_words_dom (Inl (st, AList.update variable word assignment))"
  with backtrack_try_words_frame_partial(1)[of st "AList.update variable word assignment" xa y]
  have "y = st" by auto
  then show "(Inr (y, assignment, variable, rest), Inr (st, assignment, variable, word # rest)) \<in> measures
    [\<lambda>p. case p of Inl (st, a) \<Rightarrow> 2 * unassigned st (set (map fst a)) + 1
                  | Inr (st, a, v, ws) \<Rightarrow> 2 * unassigned st (insert v (set (map fst a))) + 2,
     \<lambda>p. case p of Inl (st, a) \<Rightarrow> 0 | Inr (st, a, v, ws) \<Rightarrow> length ws]"
    by simp
next
  fix st :: CrosswordCreator and assignment :: assignment and variable word and rest :: "string list"
  show "(Inr (st, assignment, variable, rest), Inr (st, assignment, variable, word # rest)) \<in> measures
    [\<lambda>p. case p of Inl (st, a) \<Rightarrow> 2 * unassigned st (set (map fst a)) + 1
                  | Inr (st, a, v, ws) \<Rightarrow> 2 * unassigned st (insert v (set (map fst a))) + 2,
     \<lambda>p. case p of Inl (st, a) \<Rightarrow> 0 | Inr (st, a, v, ws) \<Rightarrow> length ws]"
    by simp
qed

subsection \<open>Solving\<close>

text \<open>\<^verbatim>\<open>solve\<close>: the result of \<^verbatim>\<open>ac3\<close> is dropped, an exception is not.\<close>

definition solve :: "CrosswordCreator \<Rightarrow> error + (assignment option \<times> CrosswordCreator)" where
  "solve st =
     (case enforce_node_consistency st of
        Inl e \<Rightarrow> Inl e
      | Inr st1 \<Rightarrow>
         (case ac3 st1 None of
            Inl e \<Rightarrow> Inl e
          | Inr (arc_consistent, st2) \<Rightarrow> backtrack st2 []))"

section \<open>A small instance\<close>

text \<open>
  Two crossing variables of length 3 (\<open>ex_A\<close> downwards, \<open>ex_B\<close> across; the first cell
  of \<open>ex_A\<close> is the second of \<open>ex_B\<close>) and a separate variable of length 5.
  \<open>ex_node\<close> is the creator after node consistency.
\<close>

definition ex_A :: Variable where "ex_A = Variable 0 1 DOWN 3"
definition ex_B :: Variable where "ex_B = Variable 0 0 ACROSS 3"
definition ex_C :: Variable where "ex_C = Variable 4 0 ACROSS 5"

definition ex_crossword :: Crossword where
  "ex_crossword =
     \<lparr>variables = [ex_A, ex_B, ex_C],
      words = [''ace'', ''cat'', ''dog'', ''hello''],
      overlaps = map_of
        [((ex_A, ex_B), Some (0, 1)), ((ex_B, ex_A), Some (1, 0)),
         ((ex_A, ex_C), None), ((ex_C, ex_A), None),
         ((ex_B, ex_C), None), ((ex_C, ex_B), None)],
      neighbors = (\<lambda>var. if var = ex_A then [ex_B] else if var = ex_B then [ex_A] else [])\<rparr>"

definition ex_node :: CrosswordCreator where
  "ex_node =
     \<lparr>crossword = ex_crossword,
      domains = [(ex_A, [''ace'', ''cat'', ''dog'']), (ex_B, [''ace'', ''cat'', ''dog'']),
                 (ex_C, [''hello''])]\<rparr>"

lemmas ex_defs = ex_A_def ex_B_def ex_C_def ex_crossword_def ex_node_def

section \<open>Arc revision\<close>

lemma any_agree_in_range:
  "ix < length w \<Longrightarrow> \<forall>v \<in> set dy. iy < length v \<Longrightarrow>
   any_agree w ix iy dy = Inr (\<exists>v \<in> set dy. w ! ix = v ! iy)"
  by (induction dy) (auto simp: getitem_def)

lemma any_agree_empty: "any_agree w ix iy [] = Inr False"
  by simp

lemma lookup_update_same: "lookup (AList.update k v d) k = Inr v"
  by (simp add: lookup_def update_conv')

lemma lookup_update_other: "k' \<noteq> k \<Longrightarrow> lookup (AList.update k v d) k' = lookup d k'"
  by (simp add: lookup_def update_conv')

lemma revise_words_spec:
  assumes "x \<noteq> y" and "\<forall>v \<in> set dy. iy < length v"
  shows "lookup (domains st) y = Inr dy \<Longrightarrow> lookup (domains st) x = Inr cur \<Longrightarrow> distinct ws \<Longrightarrow> set ws \<subseteq> set cur \<Longrightarrow>
         \<forall>w \<in> set ws. ix < length w \<Longrightarrow>
         revise_words x y ix iy ws r st =
           Inr (r \<or> (\<exists>w \<in> set ws. \<not> (\<exists>v \<in> set dy. w ! ix = v ! iy)),
                st\<lparr>domains := AList.update x
                   (filter (\<lambda>w. w \<notin> set ws \<or> (\<exists>v \<in> set dy. w ! ix = v ! iy)) cur) (domains st)\<rparr>)"
proof (induction ws arbitrary: r st cur)
  case Nil
  then show ?case by (simp add: lookup_Inr update_triv)
next
  case (Cons w ws)
  let ?sup = "\<lambda>w. \<exists>v \<in> set dy. w ! ix = v ! iy"
  have ag: "any_agree w ix iy dy = Inr (?sup w)"
    using Cons.prems assms(2) by (intro any_agree_in_range) auto
  show ?case
  proof (cases "?sup w")
    case True
    have step: "revise_words x y ix iy (w # ws) r st = revise_words x y ix iy ws r st"
      using ag True Cons.prems(1) by simp
    have ih: "revise_words x y ix iy ws r st = Inr (r \<or> (\<exists>w \<in> set ws. \<not> ?sup w),
                st\<lparr>domains := AList.update x (filter (\<lambda>w. w \<notin> set ws \<or> ?sup w) cur) (domains st)\<rparr>)"
      using Cons.prems by (intro Cons.IH) auto
    have fl: "filter (\<lambda>u. u \<notin> set ws \<or> ?sup u) cur = filter (\<lambda>u. u \<notin> set (w # ws) \<or> ?sup u) cur"
      using True by (intro filter_cong) auto
    have ex: "(r \<or> (\<exists>u \<in> set ws. \<not> ?sup u)) = (r \<or> (\<exists>u \<in> set (w # ws). \<not> ?sup u))"
      using True by auto
    show ?thesis unfolding step ih fl ex ..
  next
    case False
    let ?st1 = "st\<lparr>domains := AList.update x (removeAll w cur) (domains st)\<rparr>"
    have wcur: "w \<in> set cur" using Cons.prems by simp
    have step: "revise_words x y ix iy (w # ws) r st = revise_words x y ix iy ws True ?st1"
      using ag False Cons.prems(1,2) wcur by (simp add: set_remove_def)
    have ih: "revise_words x y ix iy ws True ?st1 = Inr (True \<or> (\<exists>w \<in> set ws. \<not> ?sup w),
                ?st1\<lparr>domains := AList.update x
                   (filter (\<lambda>w. w \<notin> set ws \<or> ?sup w) (removeAll w cur)) (domains ?st1)\<rparr>)"
    proof (rule Cons.IH)
      show "lookup (domains ?st1) y = Inr dy"
        using Cons.prems(1) assms(1) by (simp add: lookup_update_other)
      show "lookup (domains ?st1) x = Inr (removeAll w cur)" by (simp add: lookup_update_same)
      show "distinct ws" using Cons.prems by simp
      show "set ws \<subseteq> set (removeAll w cur)" using Cons.prems by auto
      show "\<forall>w \<in> set ws. ix < length w" using Cons.prems by simp
    qed
    have fl: "filter (\<lambda>u. u \<notin> set ws \<or> ?sup u) (removeAll w cur)
                 = filter (\<lambda>u. u \<notin> set (w # ws) \<or> ?sup u) cur"
      using False by (induction cur) auto
    have ex: "(r \<or> (\<exists>u \<in> set (w # ws). \<not> ?sup u)) = True"
      using False by auto
    show ?thesis unfolding step ih fl ex by simp
  qed
qed

text \<open>
  Claim C6. \<^verbatim>\<open>revise(x, y)\<close>: when the overlap map holds \<^verbatim>\<open>None\<close> for \<open>(x, y)\<close>, nothing
  is removed and the result is \<open>False\<close>. When it holds the index pair \<open>(ix, iy)\<close> (for two
  different variables whose domains are sets of words long enough for the indices), the
  new domain of \<open>x\<close> keeps exactly the words \<open>w\<close> for which some word \<open>v\<close> of \<open>y\<close>'s
  domain has \<open>w[ix] = v[iy]\<close>, every other domain is unchanged, and the result is \<open>True\<close>
  iff some word of \<open>x\<close>'s domain had no such partner.
\<close>

theorem revise_removes_unsupported:
  "(overlaps (crossword st) (x, y) = Some None \<longrightarrow> revise st x y = Inr (False, st)) \<and>
   (overlaps (crossword st) (x, y) = Some (Some (ix, iy)) \<and> x \<noteq> y \<and>
    lookup (domains st) x = Inr dx \<and> lookup (domains st) y = Inr dy \<and> distinct dx \<and>
    (\<forall>w \<in> set dx. ix < length w) \<and> (\<forall>v \<in> set dy. iy < length v) \<longrightarrow>
    revise st x y =
      Inr (\<exists>w \<in> set dx. \<not> (\<exists>v \<in> set dy. w ! ix = v ! iy),
           st\<lparr>domains := AList.update x (filter (\<lambda>w. \<exists>v \<in> set dy. w ! ix = v ! iy) dx) (domains st)\<rparr>))"
proof (intro conjI impI)
  assume "overlaps (crossword st) (x, y) = Some None"
  then show "revise st x y = Inr (False, st)" by (simp add: revise_def)
next
  assume a: "overlaps (crossword st) (x, y) = Some (Some (ix, iy)) \<and> x \<noteq> y \<and>
    lookup (domains st) x = Inr dx \<and> lookup (domains st) y = Inr dy \<and> distinct dx \<and>
    (\<forall>w \<in> set dx. ix < length w) \<and> (\<forall>v \<in> set dy. iy < length v)"
  then have "revise st x y = revise_words x y ix iy dx False st" by (simp add: revise_def)
  also have "\<dots> = Inr (False \<or> (\<exists>w \<in> set dx. \<not> (\<exists>v \<in> set dy. w ! ix = v ! iy)),
       st\<lparr>domains := AList.update x
          (filter (\<lambda>w. w \<notin> set dx \<or> (\<exists>v \<in> set dy. w ! ix = v ! iy)) dx) (domains st)\<rparr>)"
    using a by (intro revise_words_spec) auto
  also have "filter (\<lambda>w. w \<notin> set dx \<or> (\<exists>v \<in> set dy. w ! ix = v ! iy)) dx
               = filter (\<lambda>w. \<exists>v \<in> set dy. w ! ix = v ! iy) dx"
    by (intro filter_cong) auto
  finally show "revise st x y =
      Inr (\<exists>w \<in> set dx. \<not> (\<exists>v \<in> set dy. w ! ix = v ! iy),
           st\<lparr>domains := AList.update x (filter (\<lambda>w. \<exists>v \<in> set dy. w ! ix = v ! iy) dx) (domains st)\<rparr>)"
    by simp
qed

theorem revise_removes_unsupported_witness:
  "overlaps (crossword ex_node) (ex_A, ex_C) = Some None \<and>
   revise ex_node ex_A ex_C = Inr (False, ex_node) \<and>
   overlaps (crossword ex_node) (ex_A, ex_B) = Some (Some (0, 1)) \<and> ex_A \<noteq> ex_B \<and>
   lookup (domains ex_node) ex_A = Inr [''ace'', ''cat'', ''dog''] \<and>
   lookup (domains ex_node) ex_B = Inr [''ace'', ''cat'', ''dog''] \<and>
   revise ex_node ex_A ex_B =
     Inr (True, ex_node\<lparr>domains := [(ex_A, [''ace'', ''cat'']), (ex_B, [''ace'', ''cat'', ''dog'']),
                                      (ex_C, [''hello''])]\<rparr>)"
  using revise_removes_unsupported[of ex_node ex_A ex_C]
    revise_removes_unsupported[of ex_node ex_A ex_B 0 1 "[''ace'', ''cat'', ''dog'']" "[''ace'', ''cat'', ''dog'']"]
  by (simp add: ex_defs lookup_def)

section \<open>The consistency predicate\<close>

lemma check_neighbors_True:
  "check_neighbors st a var ns = Inr True \<longleftrightarrow>
   (\<forall>n \<in> set ns. \<forall>nw. map_of a n = Some nw \<longrightarrow>
      (\<exists>i j vw. overlaps (crossword st) (var, n) = Some (Some (i, j)) \<and> map_of a var = Some vw \<and>
         i < length vw \<and> j < length nw \<and> vw ! i = nw ! j))"
proof (induction ns)
  case Nil
  show ?case by simp
next
  case (Cons n ns)
  show ?case
  proof (cases "map_of a n")
    case None
    with Cons show ?thesis by simp
  next
    case (Some nw)
    then show ?thesis
      using Cons
      by (auto simp: lookup_def getitem_def split: option.splits sum.splits if_splits)
  qed
qed

lemma consistent_vars_True:
  "consistent_vars st a vars = Inr True \<longleftrightarrow>
   (\<forall>var \<in> set vars. \<exists>w. map_of a var = Some w \<and> var_length var = length w \<and>
      check_neighbors st a var (neighbors (crossword st) var) = Inr True)"
proof (induction vars)
  case Nil
  show ?case by simp
next
  case (Cons var vars)
  show ?case
  proof (cases "map_of a var")
    case None
    then show ?thesis by (simp add: lookup_def)
  next
    case (Some w)
    show ?thesis
    proof (cases "check_neighbors st a var (neighbors (crossword st) var)")
      case (Inl e)
      with Some show ?thesis by (simp add: lookup_def)
    next
      case (Inr b)
      with Some Cons show ?thesis by (cases b) (auto simp: lookup_def)
    qed
  qed
qed

lemma remdups_shorter: "length (remdups xs) < length xs \<longleftrightarrow> \<not> distinct xs"
  using length_remdups_leq[of xs] length_remdups_eq[of xs] remdups_id_iff_distinct[of xs]
  by linarith

lemma is_pair_iff: "is_pair e \<longleftrightarrow> (\<exists>i j. e = Some (Some (i, j)))"
  by (auto simp: is_pair_def split: option.splits)

lemma wf_neighbors:
  assumes "wf_crossword c" and "x \<in> set (variables c)"
  shows "y \<in> set (neighbors c x) \<longleftrightarrow>
         y \<in> set (variables c) \<and> (\<exists>i j. overlaps c (x, y) = Some (Some (i, j)))"
proof -
  from assms have "set (neighbors c x) = set (filter (\<lambda>y. is_pair (overlaps c (x, y))) (variables c))"
    unfolding wf_crossword_def by blast
  then show ?thesis by (simp add: is_pair_iff)
qed

lemma wf_pairs:
  assumes "wf_crossword c"
  shows "\<forall>x \<in> set (variables c). \<forall>y \<in> set (variables c).
        (x = y \<longrightarrow> overlaps c (x, y) = None) \<and>
        (x \<noteq> y \<longrightarrow> overlaps c (x, y) \<noteq> None) \<and>
        (\<forall>i j. overlaps c (x, y) = Some (Some (i, j)) \<longrightarrow>
           overlaps c (y, x) = Some (Some (j, i)) \<and> i < var_length x \<and> j < var_length y)"
  using assms unfolding wf_crossword_def by (elim conjE)

lemma wf_overlap:
  assumes "wf_crossword c" and "x \<in> set (variables c)" and "y \<in> set (variables c)"
    and "overlaps c (x, y) = Some (Some (i, j))"
  shows "overlaps c (y, x) = Some (Some (j, i))" and "i < var_length x" and "j < var_length y"
    and "x \<noteq> y"
proof -
  note p = bspec[OF bspec[OF wf_pairs[OF assms(1)] assms(2)] assms(3)]
  note q = p[THEN conjunct2, THEN conjunct2, THEN spec, THEN spec, THEN mp, OF assms(4)]
  from q show "overlaps c (y, x) = Some (Some (j, i))" by (rule conjunct1)
  from q show "i < var_length x" by (elim conjE)
  from q show "j < var_length y" by (elim conjE)
  from p have "x = y \<longrightarrow> overlaps c (x, y) = None" by (rule conjunct1)
  with assms(4) show "x \<noteq> y" by auto
qed

lemma wf_overlap_defined:
  assumes "wf_crossword c" and "x \<in> set (variables c)" and "y \<in> set (variables c)" and "x \<noteq> y"
  shows "overlaps c (x, y) \<noteq> None"
  using bspec[OF bspec[OF wf_pairs[OF assms(1)] assms(2)] assms(3)] assms(4) by (elim conjE) simp

lemma wf_distinct_variables: "wf_crossword c \<Longrightarrow> distinct (variables c)"
  by (simp add: wf_crossword_def)

lemma map_of_key: "map_of a x = Some w \<Longrightarrow> x \<in> fst ` set a"
  by (drule map_of_SomeD) (simp add: rev_image_eqI)

lemma key_map_of: "x \<in> fst ` set a \<Longrightarrow> \<exists>w. map_of a x = Some w"
  by (cases "map_of a x") (simp_all add: map_of_eq_None_iff)

text \<open>
  Claim C7. For an assignment of crossword variables (a dictionary, so its keys are
  distinct) over a well-formed problem graph, \<^verbatim>\<open>consistent(assignment)\<close> returns \<open>True\<close>
  if and only if the assigned words are pairwise distinct, every assigned word has the
  length of its variable, and every two assigned variables with an overlap \<open>(i, j)\<close> carry
  words that agree there. (When a length is wrong the call returns \<open>False\<close> or raises
  \<^verbatim>\<open>IndexError\<close>, depending on the order of the keys; it never returns \<open>True\<close>.)
\<close>

theorem consistent_iff:
  assumes "wf_crossword (crossword st)" and "distinct (map fst a)"
    and "set (map fst a) \<subseteq> set (variables (crossword st))"
  shows "consistent st a = Inr True \<longleftrightarrow>
     distinct (map snd a) \<and>
     (\<forall>(var, word) \<in> set a. length word = var_length var) \<and>
     (\<forall>x y wx wy i j. map_of a x = Some wx \<and> map_of a y = Some wy \<and>
        overlaps (crossword st) (x, y) = Some (Some (i, j)) \<longrightarrow> wx ! i = wy ! j)"
  (is "?L \<longleftrightarrow> ?A \<and> ?B \<and> ?C")
proof
  assume L: ?L
  have A: ?A
    using L remdups_shorter[of "map snd a"] by (simp add: consistent_def split: if_splits)
  have cv: "consistent_vars st a (map fst a) = Inr True"
    using L by (simp add: consistent_def split: if_splits)
  have B: ?B
  proof (clarify)
    fix var word assume m: "(var, word) \<in> set a"
    then have "map_of a var = Some word" using assms(2) by simp
    moreover have "var \<in> set (map fst a)" using m by (simp add: rev_image_eqI)
    ultimately show "length word = var_length var"
      using cv unfolding consistent_vars_True by fastforce
  qed
  have C: ?C
  proof (intro allI impI)
    fix x y wx wy i j
    assume h: "map_of a x = Some wx \<and> map_of a y = Some wy \<and>
        overlaps (crossword st) (x, y) = Some (Some (i, j))"
    from h have xk: "x \<in> set (map fst a)" and yk: "y \<in> set (map fst a)"
      by (simp_all add: map_of_key)
    with assms(3) have xv: "x \<in> set (variables (crossword st))" and yv: "y \<in> set (variables (crossword st))"
      by blast+
    have "y \<in> set (neighbors (crossword st) x)"
      using wf_neighbors[OF assms(1) xv, of y] yv h by blast
    moreover have "check_neighbors st a x (neighbors (crossword st) x) = Inr True"
      using cv xk unfolding consistent_vars_True by blast
    ultimately have "\<exists>i' j' vw. overlaps (crossword st) (x, y) = Some (Some (i', j')) \<and>
         map_of a x = Some vw \<and> i' < length vw \<and> j' < length wy \<and> vw ! i' = wy ! j'"
      using h unfolding check_neighbors_True by blast
    with h show "wx ! i = wy ! j" by auto
  qed
  from A B C show "?A \<and> ?B \<and> ?C" by blast
next
  assume R: "?A \<and> ?B \<and> ?C"
  have B: "length word = var_length var" if "(var, word) \<in> set a" for var word
    using R that by auto
  have C: "wx ! i = wy ! j"
    if "map_of a x = Some wx" "map_of a y = Some wy" "overlaps (crossword st) (x, y) = Some (Some (i, j))"
    for x y wx wy i j
    using R that by blast
  have "consistent_vars st a (map fst a) = Inr True"
    unfolding consistent_vars_True
  proof
    fix var assume vk: "var \<in> set (map fst a)"
    then obtain w where w: "map_of a var = Some w"
      using key_map_of[of var a] by auto
    have len: "var_length var = length w"
      using B[OF map_of_SomeD[OF w]] by simp
    from vk assms(3) have vv: "var \<in> set (variables (crossword st))" by blast
    have "check_neighbors st a var (neighbors (crossword st) var) = Inr True"
      unfolding check_neighbors_True
    proof (intro ballI allI impI)
      fix n nw assume n: "n \<in> set (neighbors (crossword st) var)" and nw: "map_of a n = Some nw"
      from n wf_neighbors[OF assms(1) vv, of n] obtain i j where
        nv: "n \<in> set (variables (crossword st))" and
        ov: "overlaps (crossword st) (var, n) = Some (Some (i, j))"
        by blast
      from wf_overlap(2,3)[OF assms(1) vv nv ov] have rng: "i < var_length var" "j < var_length n" .
      have ln: "length nw = var_length n" using B[OF map_of_SomeD[OF nw]] .
      have eq: "w ! i = nw ! j" using C[OF w nw ov] .
      show "\<exists>i j vw. overlaps (crossword st) (var, n) = Some (Some (i, j)) \<and>
          map_of a var = Some vw \<and> i < length vw \<and> j < length nw \<and> vw ! i = nw ! j"
        using ov w rng len ln eq by simp
    qed
    with w len show "\<exists>w. map_of a var = Some w \<and> var_length var = length w \<and>
      check_neighbors st a var (neighbors (crossword st) var) = Inr True" by simp
  qed
  moreover have "\<not> length (remdups (map snd a)) < length (map snd a)"
    using R remdups_shorter[of "map snd a"] by blast
  ultimately show ?L by (simp add: consistent_def)
qed


lemma ex_wf: "wf_crossword ex_crossword"
  by (simp add: wf_crossword_def ex_defs is_pair_def)

theorem consistent_iff_witness:
  "wf_crossword (crossword ex_node) \<and>
   distinct (map fst [(ex_A, ''ace''), (ex_B, ''cat'')]) \<and>
   set (map fst [(ex_A, ''ace''), (ex_B, ''cat'')]) \<subseteq> set (variables (crossword ex_node)) \<and>
   consistent ex_node [(ex_A, ''ace''), (ex_B, ''cat'')] = Inr True \<and>
   distinct (map snd [(ex_A, ''ace''), (ex_B, ''cat'')]) \<and>
   length ''ace'' = var_length ex_A \<and> length ''cat'' = var_length ex_B \<and>
   ''ace'' ! 0 = ''cat'' ! 1"
proof -
  have wf: "wf_crossword (crossword ex_node)" using ex_wf by (simp add: ex_node_def)
  have d: "distinct (map fst [(ex_A, ''ace''), (ex_B, ''cat'')])" by (simp add: ex_defs)
  have k: "set (map fst [(ex_A, ''ace''), (ex_B, ''cat'')]) \<subseteq> set (variables (crossword ex_node))"
    by (simp add: ex_defs)
  have c: "consistent ex_node [(ex_A, ''ace''), (ex_B, ''cat'')] = Inr True"
    by (simp add: consistent_def lookup_def getitem_def ex_defs)
  show ?thesis
    using consistent_iff[OF wf d k] wf d k c by (simp add: ex_defs)
qed

declare backtrack.simps [simp del]

section \<open>Facts about the small instance\<close>

definition ex_arc :: CrosswordCreator where
  "ex_arc =
     \<lparr>crossword = ex_crossword,
      domains = [(ex_A, [''ace'', ''cat'']), (ex_B, [''ace'', ''cat'']), (ex_C, [''hello''])]\<rparr>"

lemma ex_enforce_node_consistency: "enforce_node_consistency (init ex_crossword) = Inr ex_node"
  by (simp add: enforce_node_consistency_def init_def lookup_def set_remove_def ex_defs)

lemma ex_revise_A_B: "revise ex_node ex_A ex_B = Inr (True, ex_node\<lparr>domains :=
    [(ex_A, [''ace'', ''cat'']), (ex_B, [''ace'', ''cat'', ''dog'']), (ex_C, [''hello''])]\<rparr>)"
  by (simp add: revise_def lookup_def set_remove_def getitem_def ex_defs)

lemma ex_ac3: "ac3 ex_node None = Inr (True, ex_arc)"
  by (simp add: ac3_def get_arc_queue_def revise_def lookup_def set_remove_def getitem_def
       ex_defs ex_arc_def)

lemma ex_backtrack:
  "backtrack ex_arc [] = Inr (Some [(ex_C, ''hello''), (ex_A, ''ace''), (ex_B, ''cat'')], ex_arc)"
  by (simp add: backtrack.simps select_unassigned_variable_def py_min_def consistent_def
       lookup_def getitem_def ex_defs ex_arc_def)

lemma ex_solve:
  "solve (init ex_crossword) =
     Inr (Some [(ex_C, ''hello''), (ex_A, ''ace''), (ex_B, ''cat'')], ex_arc)"
  by (simp add: solve_def ex_enforce_node_consistency ex_ac3 ex_backtrack)

section \<open>The search leaves the creator alone\<close>

lemma backtrack_try_words_total:
  "backtrack_try_words_dom (Inl (st, a))"
  "backtrack_try_words_dom (Inr (st, a, v, ws))"
  by (induct st a and st a v ws rule: backtrack_try_words.induct)
     (auto intro: backtrack_try_words.domintros)

lemma backtrack_frame: "backtrack st a = Inr (r, st') \<Longrightarrow> st' = st"
  using backtrack_try_words_frame_partial(1)[OF backtrack_try_words_total(1)]
  by simp

lemma try_words_frame: "try_words st a v ws = Inr (r, st') \<Longrightarrow> st' = st"
  using backtrack_try_words_frame_partial(2)[OF backtrack_try_words_total(2)]
  by simp

text \<open>
  Claim C9. Whatever the assignment, a call of \<^verbatim>\<open>backtrack\<close> that returns hands back the
  creator it was given: the domain store and the problem graph are the ones before the
  call. The same holds for the loop over the candidate words from any point on, so every
  sibling branch of the search starts from the same domains.
\<close>

theorem backtrack_leaves_creator_unchanged:
  "(backtrack st assignment = Inr (result, st') \<longrightarrow>
      domains st' = domains st \<and> crossword st' = crossword st \<and> st' = st) \<and>
   (try_words st assignment variable candidates = Inr (result, st') \<longrightarrow>
      domains st' = domains st \<and> crossword st' = crossword st \<and> st' = st)"
  using backtrack_frame[of st assignment result st']
    try_words_frame[of st assignment variable candidates result st']
  by blast

theorem backtrack_leaves_creator_unchanged_witness:
  "backtrack ex_arc [] = Inr (Some [(ex_C, ''hello''), (ex_A, ''ace''), (ex_B, ''cat'')], ex_arc) \<and>
   domains ex_arc = domains ex_arc \<and> crossword ex_arc = crossword ex_arc"
  using backtrack_leaves_creator_unchanged[of ex_arc "[]"
      "Some [(ex_C, ''hello''), (ex_A, ''ace''), (ex_B, ''cat'')]" ex_arc]
    ex_backtrack
  by simp

section \<open>What consistency enforcement preserves\<close>

lemma update_present_keys: "map_of d k = Some v \<Longrightarrow> map fst (AList.update k v' d) = map fst d"
  by (simp add: update_keys map_of_key)

definition same_shape :: "CrosswordCreator \<Rightarrow> CrosswordCreator \<Rightarrow> bool" where
  "same_shape st st' \<longleftrightarrow>
     crossword st' = crossword st \<and> map fst (domains st') = map fst (domains st)"

lemma same_shape_refl: "same_shape st st"
  by (simp add: same_shape_def)

lemma same_shape_trans: "same_shape st st1 \<Longrightarrow> same_shape st1 st2 \<Longrightarrow> same_shape st st2"
  by (simp add: same_shape_def)

lemma same_shape_update:
  "lookup (domains st) k = Inr v \<Longrightarrow> same_shape st (st\<lparr>domains := AList.update k v' (domains st)\<rparr>)"
  by (simp add: same_shape_def lookup_Inr update_present_keys)

lemma revise_words_shape:
  "revise_words x y ix iy ws r st = Inr (r', st') \<Longrightarrow>
   same_shape st st' \<and> (\<forall>z. z \<noteq> x \<longrightarrow> map_of (domains st') z = map_of (domains st) z)"
proof (induction ws arbitrary: r st)
  case Nil
  then show ?case by (simp add: same_shape_refl)
next
  case (Cons w ws)
  from Cons.prems obtain dy b where
    dy: "lookup (domains st) y = Inr dy" and b: "any_agree w ix iy dy = Inr b"
    by (auto split: sum.splits)
  show ?case
  proof (cases b)
    case True
    with Cons.prems dy b have "revise_words x y ix iy ws r st = Inr (r', st')" by simp
    from Cons.IH[OF this] show ?thesis .
  next
    case False
    with Cons.prems dy b obtain dx dx' where
      dx: "lookup (domains st) x = Inr dx" and dx': "set_remove w dx = Inr dx'" and
      rec: "revise_words x y ix iy ws True (st\<lparr>domains := AList.update x dx' (domains st)\<rparr>) = Inr (r', st')"
      by (auto split: sum.splits)
    from Cons.IH[OF rec] same_shape_update[OF dx, of dx'] show ?thesis
      by (auto simp: update_conv' intro: same_shape_trans)
  qed
qed

lemma revise_shape:
  assumes "revise st x y = Inr (r, st')"
  shows "same_shape st st'" and "z \<noteq> x \<Longrightarrow> map_of (domains st') z = map_of (domains st) z"
proof -
  have "same_shape st st' \<and> (\<forall>z. z \<noteq> x \<longrightarrow> map_of (domains st') z = map_of (domains st) z)"
  proof (cases "overlaps (crossword st) (x, y)")
    case None
    with assms show ?thesis by (simp add: revise_def)
  next
    case (Some e)
    show ?thesis
    proof (cases e)
      case None
      with Some assms show ?thesis by (auto simp: revise_def same_shape_refl)
    next
      case (Some p)
      obtain ix iy where p: "p = (ix, iy)" by (cases p)
      from assms \<open>overlaps (crossword st) (x, y) = Some e\<close> Some p obtain dx where
        "revise_words x y ix iy dx False st = Inr (r, st')"
        by (auto simp: revise_def split: sum.splits)
      from revise_words_shape[OF this] show ?thesis .
    qed
  qed
  then show "same_shape st st'" and "z \<noteq> x \<Longrightarrow> map_of (domains st') z = map_of (domains st) z"
    by simp_all
qed

lemma ac3_loop_shape: "ac3_loop arcs st = Inr (b, st') \<Longrightarrow> same_shape st st'"
proof (induction arcs st rule: ac3_loop.induct)
  case (1 st)
  then show ?case by (simp add: same_shape_refl)
next
  case (2 x y arcs st)
  from "2.prems" obtain revised st1 where rv: "revise st x y = Inr (revised, st1)"
    by (auto split: sum.splits)
  note sh = revise_shape(1)[OF rv]
  show ?case
  proof (cases revised)
    case False
    with "2.prems" rv have "ac3_loop arcs st1 = Inr (b, st')" by simp
    from "2.IH"(2)[OF rv refl False this] sh show ?thesis by (rule same_shape_trans[rotated])
  next
    case True
    with "2.prems" rv obtain dx where dx: "lookup (domains st1) x = Inr dx"
      by (auto split: sum.splits)
    show ?thesis
    proof (cases "length dx = 0")
      case True
      with "2.prems" rv \<open>revised\<close> dx have "st' = st1" by simp
      with sh show ?thesis by simp
    next
      case False
      with "2.prems" rv \<open>revised\<close> dx have
        "ac3_loop (arcs @ map (\<lambda>neighbor. (neighbor, x))
            (filter (\<lambda>neighbor. neighbor \<noteq> y) (neighbors (crossword st1) x))) st1 = Inr (b, st')"
        by simp
      from "2.IH"(1)[OF rv refl \<open>revised\<close> dx False this] sh show ?thesis
        by (rule same_shape_trans[rotated])
    qed
  qed
qed


lemma node_words_shape: "node_words var ws st = Inr st' \<Longrightarrow> same_shape st st'"
proof (induction ws arbitrary: st)
  case Nil
  then show ?case by (simp add: same_shape_refl)
next
  case (Cons w ws)
  show ?case
  proof (cases "length w \<noteq> var_length var")
    case False
    with Cons show ?thesis by simp
  next
    case True
    with Cons.prems obtain d d' where
      d: "lookup (domains st) var = Inr d" and
      rec: "node_words var ws (st\<lparr>domains := AList.update var d' (domains st)\<rparr>) = Inr st'"
      by (auto split: sum.splits)
    from Cons.IH[OF rec] same_shape_update[OF d, of d'] show ?thesis
      by (rule same_shape_trans[rotated])
  qed
qed

lemma node_vars_shape: "node_vars vars st = Inr st' \<Longrightarrow> same_shape st st'"
proof (induction vars arbitrary: st)
  case Nil
  then show ?case by (simp add: same_shape_refl)
next
  case (Cons var vars)
  from Cons.prems obtain d st1 where
    nw: "node_words var d st = Inr st1" and rec: "node_vars vars st1 = Inr st'"
    by (auto split: sum.splits)
  from Cons.IH[OF rec] node_words_shape[OF nw] show ?case
    by (rule same_shape_trans[rotated])
qed

lemma enforce_node_consistency_shape: "enforce_node_consistency st = Inr st' \<Longrightarrow> same_shape st st'"
  unfolding enforce_node_consistency_def by (rule node_vars_shape)

lemma ac3_shape: "ac3 st arcs = Inr (b, st') \<Longrightarrow> same_shape st st'"
  unfolding ac3_def by (cases arcs) (auto dest: ac3_loop_shape)

section \<open>Failure of arc consistency\<close>

lemma ac3_loop_False_empty:
  "ac3_loop arcs st = Inr (False, st') \<Longrightarrow> \<exists>x. lookup (domains st') x = Inr []"
proof (induction arcs st rule: ac3_loop.induct)
  case (1 st)
  then show ?case by simp
next
  case (2 x y arcs st)
  from "2.prems" obtain revised st1 where rv: "revise st x y = Inr (revised, st1)"
    by (auto split: sum.splits)
  show ?case
  proof (cases revised)
    case False
    with "2.prems" rv have "ac3_loop arcs st1 = Inr (False, st')" by simp
    from "2.IH"(2)[OF rv refl False this] show ?thesis .
  next
    case True
    with "2.prems" rv obtain dx where dx: "lookup (domains st1) x = Inr dx"
      by (auto split: sum.splits)
    show ?thesis
    proof (cases "length dx = 0")
      case True
      with "2.prems" rv \<open>revised\<close> dx have "st' = st1" by simp
      with dx True show ?thesis by auto
    next
      case False
      with "2.prems" rv \<open>revised\<close> dx have
        "ac3_loop (arcs @ map (\<lambda>neighbor. (neighbor, x))
            (filter (\<lambda>neighbor. neighbor \<noteq> y) (neighbors (crossword st1) x))) st1 = Inr (False, st')"
        by simp
      from "2.IH"(1)[OF rv refl \<open>revised\<close> dx False this] show ?thesis .
    qed
  qed
qed

lemma ac3_loop_True_no_new_empty:
  "ac3_loop arcs st = Inr (True, st') \<Longrightarrow> lookup (domains st') z = Inr [] \<Longrightarrow>
   lookup (domains st) z = Inr []"
proof (induction arcs st rule: ac3_loop.induct)
  case (1 st)
  then show ?case by simp
next
  case (2 x y arcs st)
  from "2.prems"(1) obtain revised st1 where rv: "revise st x y = Inr (revised, st1)"
    by (auto split: sum.splits)
  show ?case
  proof (cases revised)
    case False
    with "2.prems" rv have "ac3_loop arcs st1 = Inr (True, st')" by simp
    from "2.IH"(2)[OF rv refl False this "2.prems"(2)] revise_size[OF rv] False
    show ?thesis by simp
  next
    case True
    with "2.prems" rv obtain dx where dx: "lookup (domains st1) x = Inr dx"
      by (auto split: sum.splits)
    with "2.prems"(1) rv True have ne: "length dx \<noteq> 0" by (auto split: if_splits)
    with "2.prems" rv \<open>revised\<close> dx have
      "ac3_loop (arcs @ map (\<lambda>neighbor. (neighbor, x))
          (filter (\<lambda>neighbor. neighbor \<noteq> y) (neighbors (crossword st1) x))) st1 = Inr (True, st')"
      by simp
    from "2.IH"(1)[OF rv refl \<open>revised\<close> dx ne this "2.prems"(2)]
    have z1: "lookup (domains st1) z = Inr []" .
    with dx ne have "z \<noteq> x" by auto
    from revise_shape(2)[OF rv this] z1 show ?thesis by (simp add: lookup_def)
  qed
qed

lemma py_min_from_le: "x \<in> set (best # xs) \<Longrightarrow> key (py_min_from key best xs) \<le> key x"
proof (induction xs arbitrary: best x)
  case Nil
  then show ?case by simp
next
  case (Cons y ys)
  show ?case
  proof (cases "key y < key best")
    case True
    have "key (py_min_from key y ys) \<le> key y" by (rule Cons.IH) simp
    moreover have "x \<in> set ys \<Longrightarrow> key (py_min_from key y ys) \<le> key x" by (rule Cons.IH) simp
    ultimately show ?thesis using True Cons.prems by auto
  next
    case False
    have "key (py_min_from key best ys) \<le> key best" by (rule Cons.IH) simp
    moreover have "x \<in> set ys \<Longrightarrow> key (py_min_from key best ys) \<le> key x" by (rule Cons.IH) simp
    ultimately show ?thesis using False Cons.prems by auto
  qed
qed

lemma py_min_le: "py_min key xs = Inr v \<Longrightarrow> x \<in> set xs \<Longrightarrow> key v \<le> key x"
  using py_min_from_le[of x _ _ key] by (auto simp: py_min_def split: list.splits)

lemma py_min_nonempty: "xs \<noteq> [] \<Longrightarrow> \<exists>v. py_min key xs = Inr v"
  by (cases xs) (simp_all add: py_min_def)

lemma backtrack_empty_domain:
  assumes keys: "map fst (domains st) = variables (crossword st)"
    and x: "lookup (domains st) x = Inr []"
  shows "backtrack st [] = Inr (None, st)"
proof -
  from x have xk: "x \<in> set (map fst (domains st))"
    using map_of_key[of "domains st" x "[]"] by (simp add: lookup_Inr)
  with keys have ne: "length (map fst ([] :: assignment)) \<noteq> length (variables (crossword st))"
    by (cases "variables (crossword st)") auto
  let ?key = "\<lambda>var. (case map_of (domains st) var of Some d \<Rightarrow> length d | None \<Rightarrow> 0,
               - int (length (neighbors (crossword st) var)))"
  have sel: "select_unassigned_variable st [] = py_min ?key (map fst (domains st))"
    by (simp add: select_unassigned_variable_def)
  from xk have "map fst (domains st) \<noteq> []" by auto
  from py_min_nonempty[OF this, of ?key]
  obtain v where v: "py_min ?key (map fst (domains st)) = Inr v" by blast
  from py_min_le[OF v xk] x have "fst (?key v) \<le> 0"
    by (simp add: lookup_Inr less_eq_prod_def)
  moreover from py_min_mem[OF v] obtain dv where dv: "map_of (domains st) v = Some dv"
    using key_map_of[of v "domains st"] by auto
  ultimately have "dv = []" by simp
  with dv have "lookup (domains st) v = Inr []" by (simp add: lookup_Inr)
  with ne sel v show ?thesis by (simp add: backtrack.simps)
qed


definition ex2_crossword :: Crossword where
  "ex2_crossword =
     \<lparr>variables = [ex_A, ex_B],
      words = [''ace'', ''dog''],
      overlaps = map_of [((ex_A, ex_B), Some (0, 1)), ((ex_B, ex_A), Some (1, 0))],
      neighbors = (\<lambda>var. if var = ex_A then [ex_B] else if var = ex_B then [ex_A] else [])\<rparr>"

definition ex2_node :: CrosswordCreator where
  "ex2_node =
     \<lparr>crossword = ex2_crossword,
      domains = [(ex_A, [''ace'', ''dog'']), (ex_B, [''ace'', ''dog''])]\<rparr>"

definition ex2_fail :: CrosswordCreator where
  "ex2_fail =
     \<lparr>crossword = ex2_crossword,
      domains = [(ex_A, []), (ex_B, [''ace'', ''dog''])]\<rparr>"

definition ex_hole :: CrosswordCreator where
  "ex_hole =
     \<lparr>crossword = ex_crossword,
      domains = [(ex_A, [''ace'', ''cat'']), (ex_B, [''ace'', ''cat'']), (ex_C, [])]\<rparr>"

lemmas ex2_defs = ex_A_def ex_B_def ex_C_def ex2_crossword_def ex2_node_def ex2_fail_def

lemma ex2_enforce_node_consistency: "enforce_node_consistency (init ex2_crossword) = Inr ex2_node"
  by (simp add: enforce_node_consistency_def init_def lookup_def set_remove_def ex2_defs)

lemma ex2_revise: "revise ex2_node ex_A ex_B = Inr (True, ex2_fail)"
  by (simp add: revise_def lookup_def set_remove_def getitem_def ex2_defs)

lemma ex2_ac3: "ac3 ex2_node None = Inr (False, ex2_fail)"
  by (simp add: ac3_def get_arc_queue_def revise_def lookup_def set_remove_def getitem_def ex2_defs)

lemma ex_hole_ac3: "ac3 ex_hole None = Inr (True, ex_hole)"
  by (simp add: ac3_def get_arc_queue_def revise_def lookup_def set_remove_def getitem_def
        ex_defs ex_hole_def)

text \<open>
  Claim C3. When a revision of \<open>(x, y)\<close> changes \<open>x\<close>'s domain and leaves it empty,
  \<^verbatim>\<open>ac3\<close> returns \<open>False\<close> with the domains as that revision left them, whatever the rest
  of the worklist is. Conversely a run that returns \<open>True\<close> has emptied no domain: a domain
  that is empty at the end was empty at the start. And when \<^verbatim>\<open>ac3\<close> reports failure
  inside \<^verbatim>\<open>solve\<close> (on a creator whose domain store has the crossword's variables as its
  keys, as \<^verbatim>\<open>__init__\<close> builds it), \<^verbatim>\<open>solve\<close> returns \<open>None\<close>.
\<close>

theorem ac3_failure_stops_at_once:
  "(revise st x y = Inr (True, st') \<and> lookup (domains st') x = Inr [] \<longrightarrow>
      ac3_loop ((x, y) # arcs) st = Inr (False, st')) \<and>
   (ac3 st given = Inr (True, st_a) \<and> lookup (domains st_a) z = Inr [] \<longrightarrow>
      lookup (domains st) z = Inr []) \<and>
   (map fst (domains st) = variables (crossword st) \<and>
    enforce_node_consistency st = Inr st_n \<and> ac3 st_n None = Inr (False, st_f) \<longrightarrow>
      solve st = Inr (None, st_f))"
proof (intro conjI impI)
  assume "revise st x y = Inr (True, st') \<and> lookup (domains st') x = Inr []"
  then show "ac3_loop ((x, y) # arcs) st = Inr (False, st')" by simp
next
  assume a: "ac3 st given = Inr (True, st_a) \<and> lookup (domains st_a) z = Inr []"
  then obtain q where "ac3_loop q st = Inr (True, st_a)"
    by (cases given) (auto simp: ac3_def)
  from ac3_loop_True_no_new_empty[OF this] a show "lookup (domains st) z = Inr []" by simp
next
  assume a: "map fst (domains st) = variables (crossword st) \<and>
    enforce_node_consistency st = Inr st_n \<and> ac3 st_n None = Inr (False, st_f)"
  then have n: "enforce_node_consistency st = Inr st_n" and f: "ac3 st_n None = Inr (False, st_f)"
    by simp_all
  from enforce_node_consistency_shape[OF n] ac3_shape[OF f] have "same_shape st st_f"
    by (rule same_shape_trans)
  with a have keys: "map fst (domains st_f) = variables (crossword st_f)"
    by (simp add: same_shape_def)
  from f have "ac3_loop (get_arc_queue st_n None) st_n = Inr (False, st_f)" by (simp add: ac3_def)
  from ac3_loop_False_empty[OF this] obtain v where "lookup (domains st_f) v = Inr []" by blast
  from backtrack_empty_domain[OF keys this] n f show "solve st = Inr (None, st_f)"
    by (simp add: solve_def)
qed

theorem ac3_failure_stops_at_once_witness:
  "revise ex2_node ex_A ex_B = Inr (True, ex2_fail) \<and> lookup (domains ex2_fail) ex_A = Inr [] \<and>
   ac3_loop [(ex_A, ex_B), (ex_B, ex_A)] ex2_node = Inr (False, ex2_fail) \<and>
   ac3 ex_hole None = Inr (True, ex_hole) \<and> lookup (domains ex_hole) ex_C = Inr [] \<and>
   map fst (domains (init ex2_crossword)) = variables (crossword (init ex2_crossword)) \<and>
   enforce_node_consistency (init ex2_crossword) = Inr ex2_node \<and>
   ac3 ex2_node None = Inr (False, ex2_fail) \<and>
   solve (init ex2_crossword) = Inr (None, ex2_fail)"
proof -
  have l: "lookup (domains ex2_fail) ex_A = Inr []" by (simp add: lookup_def ex2_defs)
  have h: "lookup (domains ex_hole) ex_C = Inr []" by (simp add: lookup_def ex_defs ex_hole_def)
  have k: "map fst (domains (init ex2_crossword)) = variables (crossword (init ex2_crossword))"
    by (simp add: init_def comp_def)
  note t = ac3_failure_stops_at_once[where st = ex2_node and x = ex_A and y = ex_B
        and st' = ex2_fail and arcs = "[(ex_B, ex_A)]"]
    ac3_failure_stops_at_once[where st = ex_hole and given = None and st_a = ex_hole and z = ex_C]
    ac3_failure_stops_at_once[where st = "init ex2_crossword" and st_n = ex2_node
        and st_f = ex2_fail]
  from t(1) ex2_revise l have 1: "ac3_loop [(ex_A, ex_B), (ex_B, ex_A)] ex2_node = Inr (False, ex2_fail)"
    by blast
  from t(3) k ex2_enforce_node_consistency ex2_ac3
  have 3: "solve (init ex2_crossword) = Inr (None, ex2_fail)" by blast
  from t(2) ex_hole_ac3 h have "lookup (domains ex_hole) ex_C = Inr []" by blast
  with 1 3 ex2_revise l ex_hole_ac3 k ex2_enforce_node_consistency ex2_ac3 show ?thesis by blast
qed

section \<open>What the search returns\<close>

lemma check_neighbors_crossword:
  "crossword st' = crossword st \<Longrightarrow> check_neighbors st' a var ns = check_neighbors st a var ns"
  by (induction ns) (auto split: option.splits sum.splits)

lemma consistent_vars_crossword:
  "crossword st' = crossword st \<Longrightarrow> consistent_vars st' a vars = consistent_vars st a vars"
  by (induction vars)
     (auto simp: check_neighbors_crossword[of st' st] split: sum.splits bool.splits)

lemma consistent_crossword:
  "crossword st' = crossword st \<Longrightarrow> consistent st' a = consistent st a"
  by (simp add: consistent_def consistent_vars_crossword[of st' st])

lemma consistent_Nil: "consistent st [] = Inr True"
  by (simp add: consistent_def)

lemma consistent_distinct_values: "consistent st a = Inr True \<Longrightarrow> distinct (map snd a)"
  using remdups_shorter[of "map snd a"] by (simp add: consistent_def split: if_splits)

definition search_inv :: "CrosswordCreator \<Rightarrow> assignment \<Rightarrow> bool" where
  "search_inv st a \<longleftrightarrow>
     distinct (map fst a) \<and> set (map fst a) \<subseteq> set (map fst (domains st)) \<and>
     (a = [] \<or> consistent st a = Inr True)"

lemma search_inv_update:
  "search_inv st a \<Longrightarrow> v \<in> set (map fst (domains st)) \<Longrightarrow>
   consistent st (AList.update v w a) = Inr True \<Longrightarrow> search_inv st (AList.update v w a)"
  by (simp add: search_inv_def distinct_update update_key_set)

lemma backtrack_try_words_result:
  "search_inv st a \<longrightarrow> backtrack st a = Inr (Some r, st') \<longrightarrow>
     search_inv st r \<and> length r = length (variables (crossword st))"
  "search_inv st a \<longrightarrow> v \<in> set (map fst (domains st)) \<longrightarrow>
   try_words st a v ws = Inr (Some r, st') \<longrightarrow>
     search_inv st r \<and> length r = length (variables (crossword st))"
proof (induct st a and st a v ws arbitrary: r st' and r st' rule: backtrack_try_words.induct)
  case (1 st a)
  show ?case
  proof (intro impI)
    assume inv: "search_inv st a" and bt: "backtrack st a = Inr (Some r, st')"
    show "search_inv st r \<and> length r = length (variables (crossword st))"
    proof (cases "length (map fst a) = length (variables (crossword st))")
      case True
      with bt have "r = a" by (simp add: backtrack.simps)
      with inv True show ?thesis by simp
    next
      case False
      with bt obtain v d where
        sel: "select_unassigned_variable st a = Inr v" and d: "lookup (domains st) v = Inr d" and
        tw: "try_words st a v d = Inr (Some r, st')"
        by (auto simp: backtrack.simps split: sum.splits)
      from select_unassigned_variable_mem[OF sel] have "v \<in> set (map fst (domains st))" by simp
      with "1.hyps"[OF False sel d, of r st'] inv tw show ?thesis by simp
    qed
  qed
next
  case (2 st a v)
  show ?case by simp
next
  case (3 st a v w rest)
  show ?case
  proof (intro impI)
    assume inv: "search_inv st a" and vk: "v \<in> set (map fst (domains st))"
      and tw: "try_words st a v (w # rest) = Inr (Some r, st')"
    from tw obtain b where b: "consistent st (AList.update v w a) = Inr b"
      by (auto split: sum.splits)
    show "search_inv st r \<and> length r = length (variables (crossword st))"
    proof (cases b)
      case False
      with tw b have "try_words st a v rest = Inr (Some r, st')" by simp
      with "3.hyps"(3)[OF b, of r st'] False inv vk show ?thesis by simp
    next
      case True
      with tw b obtain res st1 where bt: "backtrack st (AList.update v w a) = Inr (res, st1)"
        by (auto split: sum.splits)
      from backtrack_frame[OF bt] have st1: "st1 = st" .
      show ?thesis
      proof (cases res)
        case (Some result)
        with tw b True bt have "result = r" by simp
        with Some bt have "backtrack st (AList.update v w a) = Inr (Some r, st1)" by simp
        with "3.hyps"(1)[OF b, of r st1] True search_inv_update[OF inv vk] b
        show ?thesis by simp
      next
        case None
        with tw b True bt st1 have "try_words st a v rest = Inr (Some r, st')" by simp
        with "3.hyps"(2)[OF b _ bt, of None st1 r st'] True None st1 inv vk
        show ?thesis by simp
      qed
    qed
  qed
qed


lemma solve_unfold:
  assumes "solve st = Inr (res, st')"
  shows "\<exists>st1 st2 b. enforce_node_consistency st = Inr st1 \<and> ac3 st1 None = Inr (b, st2) \<and>
           backtrack st2 [] = Inr (res, st') \<and> st' = st2 \<and> same_shape st st2"
proof -
  from assms obtain st1 b st2 where
    n: "enforce_node_consistency st = Inr st1" and a: "ac3 st1 None = Inr (b, st2)" and
    bt: "backtrack st2 [] = Inr (res, st')"
    by (auto simp: solve_def split: sum.splits)
  from enforce_node_consistency_shape[OF n] ac3_shape[OF a] have "same_shape st st2"
    by (rule same_shape_trans)
  with n a bt backtrack_frame[OF bt] show ?thesis by blast
qed

lemma full_keys:
  assumes "distinct ks" and "set ks \<subseteq> set vs" and "length ks = length vs"
  shows "set ks = set vs" and "distinct vs"
proof -
  have "card (set vs) \<le> length vs" by (rule card_length)
  also have "\<dots> = card (set ks)" using assms(1,3) by (simp add: distinct_card)
  finally have le: "card (set vs) \<le> card (set ks)" .
  with assms(2) show eq: "set ks = set vs" by (simp add: card_seteq)
  from eq assms(1,3) have "card (set vs) = length vs" by (simp add: distinct_card[symmetric])
  then show "distinct vs" by (rule card_distinct)
qed

text \<open>
  Claim C1. On a creator whose domain store has the crossword's variables as its keys (as
  \<^verbatim>\<open>__init__\<close> builds it), every assignment that \<^verbatim>\<open>solve\<close> returns has exactly the
  crossword's variables as its keys, holds exactly one word for each of them, satisfies
  \<^verbatim>\<open>consistent\<close>, and uses no word twice.
\<close>

theorem solve_returns_complete_consistent_assignment:
  assumes "map fst (domains st) = variables (crossword st)"
    and "solve st = Inr (Some r, st')"
  shows "set (map fst r) = set (variables (crossword st)) \<and>
         (\<forall>var \<in> set (variables (crossword st)). \<exists>!word. (var, word) \<in> set r) \<and>
         consistent st' r = Inr True \<and>
         distinct (map snd r)"
proof -
  from solve_unfold[OF assms(2)] obtain st2 where
    bt: "backtrack st2 [] = Inr (Some r, st')" and st': "st' = st2" and sh: "same_shape st st2"
    by blast
  have inv0: "search_inv st2 []" by (simp add: search_inv_def)
  from backtrack_try_words_result(1)[of st2 "[]" r st'] inv0 bt
  have inv: "search_inv st2 r" and len: "length r = length (variables (crossword st2))" by simp_all
  from sh assms(1) have keys: "map fst (domains st2) = variables (crossword st)"
    and cw: "crossword st2 = crossword st" by (simp_all add: same_shape_def)
  from inv have d: "distinct (map fst r)" and sub: "set (map fst r) \<subseteq> set (variables (crossword st))"
    using keys by (simp_all add: search_inv_def)
  from len cw have len': "length (map fst r) = length (variables (crossword st))" by simp
  from full_keys(1)[OF d sub len'] have eq: "set (map fst r) = set (variables (crossword st))" .
  have one: "\<forall>var \<in> set (variables (crossword st)). \<exists>!word. (var, word) \<in> set r"
  proof
    fix var assume "var \<in> set (variables (crossword st))"
    with eq have "var \<in> fst ` set r" by simp
    then obtain word where w: "(var, word) \<in> set r" by auto
    moreover have "word' = word" if "(var, word') \<in> set r" for word'
      using d w that by (meson eq_key_imp_eq_value)
    ultimately show "\<exists>!word. (var, word) \<in> set r" by blast
  qed
  from inv have c: "consistent st2 r = Inr True"
    by (auto simp: search_inv_def consistent_Nil)
  from eq one c consistent_distinct_values[OF c] st' show ?thesis by simp
qed

theorem solve_returns_complete_consistent_assignment_witness:
  "map fst (domains (init ex_crossword)) = variables (crossword (init ex_crossword)) \<and>
   solve (init ex_crossword) = Inr (Some [(ex_C, ''hello''), (ex_A, ''ace''), (ex_B, ''cat'')], ex_arc) \<and>
   set (map fst [(ex_C, ''hello''), (ex_A, ''ace''), (ex_B, ''cat'')])
     = set (variables (crossword (init ex_crossword))) \<and>
   consistent ex_arc [(ex_C, ''hello''), (ex_A, ''ace''), (ex_B, ''cat'')] = Inr True \<and>
   distinct (map snd [(ex_C, ''hello''), (ex_A, ''ace''), (ex_B, ''cat'')])"
proof -
  have k: "map fst (domains (init ex_crossword)) = variables (crossword (init ex_crossword))"
    by (simp add: init_def comp_def)
  from solve_returns_complete_consistent_assignment[OF k ex_solve] k ex_solve
  show ?thesis by blast
qed

section \<open>The least-constraining-value score\<close>

text \<open>
  The words that choosing \<open>option\<close> for \<open>var\<close> rules out in the domain of one neighbour:
  those whose character at the overlap differs from the option's.
\<close>

definition eliminated_by :: "CrosswordCreator \<Rightarrow> Variable \<Rightarrow> string \<Rightarrow> Variable \<Rightarrow> string list" where
  "eliminated_by st var option neighbor =
     (case overlaps (crossword st) (var, neighbor) of
        Some (Some (i, j)) \<Rightarrow>
          (case map_of (domains st) neighbor of
             Some d \<Rightarrow> filter (\<lambda>value. option ! i \<noteq> value ! j) d
           | None \<Rightarrow> [])
      | _ \<Rightarrow> [])"

text \<open>
  The score in the spec's words: the eliminated words are counted neighbour by neighbour
  and the counts are added, so a word ruled out in two neighbours' domains counts twice.
\<close>

definition spec_score :: "CrosswordCreator \<Rightarrow> Variable \<Rightarrow> string \<Rightarrow> assignment \<Rightarrow> nat" where
  "spec_score st var option assignment =
     sum_list (map (\<lambda>neighbor. length (eliminated_by st var option neighbor))
        (filter (\<lambda>neighbor. neighbor \<notin> set (map fst assignment)) (neighbors (crossword st) var)))"

text \<open>
  The score the code computes: one set of eliminated words is shared by all neighbours,
  so a word counts once however many neighbours' domains lose it.
\<close>

definition union_score :: "CrosswordCreator \<Rightarrow> Variable \<Rightarrow> string \<Rightarrow> assignment \<Rightarrow> nat" where
  "union_score st var option assignment =
     card (\<Union>neighbor \<in> set (neighbors (crossword st) var) - set (map fst assignment).
             set (eliminated_by st var option neighbor))"

definition node_consistent :: "CrosswordCreator \<Rightarrow> bool" where
  "node_consistent st \<longleftrightarrow> (\<forall>(var, d) \<in> set (domains st). \<forall>w \<in> set d. length w = var_length var)"

definition ex5_V :: Variable where "ex5_V = Variable 0 0 ACROSS 3"
definition ex5_L :: Variable where "ex5_L = Variable 0 0 DOWN 3"
definition ex5_R :: Variable where "ex5_R = Variable 0 2 DOWN 3"

definition ex5_crossword :: Crossword where
  "ex5_crossword =
     \<lparr>variables = [ex5_V, ex5_L, ex5_R],
      words = [''ace'', ''dog''],
      overlaps = map_of
        [((ex5_V, ex5_L), Some (0, 0)), ((ex5_L, ex5_V), Some (0, 0)),
         ((ex5_V, ex5_R), Some (2, 0)), ((ex5_R, ex5_V), Some (0, 2)),
         ((ex5_L, ex5_R), None), ((ex5_R, ex5_L), None)],
      neighbors = (\<lambda>var. if var = ex5_V then [ex5_L, ex5_R]
                          else if var = ex5_L then [ex5_V]
                          else if var = ex5_R then [ex5_V] else [])\<rparr>"

definition ex5_node :: CrosswordCreator where
  "ex5_node =
     \<lparr>crossword = ex5_crossword,
      domains = [(ex5_V, [''ace'', ''dog'']), (ex5_L, [''ace'', ''dog'']), (ex5_R, [''ace'', ''dog''])]\<rparr>"

lemmas ex5_defs = ex5_V_def ex5_L_def ex5_R_def ex5_crossword_def ex5_node_def

lemma eliminate_words_spec:
  "i < length option \<Longrightarrow> \<forall>v \<in> set ws. j < length v \<Longrightarrow> distinct el \<Longrightarrow>
   \<exists>el'. eliminate_words option i j ws el = Inr el' \<and> distinct el' \<and>
         set el' = set el \<union> set (filter (\<lambda>value. option ! i \<noteq> value ! j) ws)"
proof (induction ws arbitrary: el)
  case Nil
  then show ?case by simp
next
  case (Cons w ws)
  show ?case
  proof (cases "option ! i \<noteq> w ! j")
    case True
    have "distinct (List.insert w el)" using Cons.prems(3) by simp
    from Cons.IH[OF Cons.prems(1) _ this] Cons.prems(2) obtain el' where
      "eliminate_words option i j ws (List.insert w el) = Inr el'" "distinct el'"
      "set el' = set (List.insert w el) \<union> set (filter (\<lambda>value. option ! i \<noteq> value ! j) ws)"
      by auto
    with True Cons.prems(1,2) show ?thesis by (auto simp: getitem_def)
  next
    case False
    from Cons.IH[OF Cons.prems(1) _ Cons.prems(3)] Cons.prems(2) obtain el' where
      "eliminate_words option i j ws el = Inr el'" "distinct el'"
      "set el' = set el \<union> set (filter (\<lambda>value. option ! i \<noteq> value ! j) ws)"
      by auto
    with False Cons.prems(1,2) show ?thesis by (auto simp: getitem_def)
  qed
qed

lemma eliminate_neighbors_spec:
  assumes "\<forall>n \<in> set ns. \<exists>i j d. overlaps (crossword st) (var, n) = Some (Some (i, j)) \<and>
             map_of (domains st) n = Some d \<and> i < length option \<and> (\<forall>v \<in> set d. j < length v)"
    and "distinct el"
  shows "\<exists>el'. eliminate_neighbors st var option ns el = Inr el' \<and> distinct el' \<and>
           set el' = set el \<union> (\<Union>n \<in> set ns. set (eliminated_by st var option n))"
  using assms
proof (induction ns arbitrary: el)
  case Nil
  then show ?case by simp
next
  case (Cons n ns)
  from Cons.prems(1) obtain i j d where
    ov: "overlaps (crossword st) (var, n) = Some (Some (i, j))" and
    d: "map_of (domains st) n = Some d" and i: "i < length option" and
    j: "\<forall>v \<in> set d. j < length v"
    by auto
  have j': "\<forall>v \<in> set (filter (\<lambda>w. w \<notin> set el) d). j < length v" using j by simp
  from eliminate_words_spec[OF i j' Cons.prems(2)] obtain el1 where
    e1: "eliminate_words option i j (filter (\<lambda>w. w \<notin> set el) d) el = Inr el1" and
    d1: "distinct el1" and
    s1: "set el1 = set el \<union> set (filter (\<lambda>value. option ! i \<noteq> value ! j) (filter (\<lambda>w. w \<notin> set el) d))"
    by blast
  have s1': "set el1 = set el \<union> set (eliminated_by st var option n)"
    using s1 ov d by (auto simp: eliminated_by_def)
  from Cons.prems(1) have rest: "\<forall>n \<in> set ns. \<exists>i j d. overlaps (crossword st) (var, n) = Some (Some (i, j)) \<and>
             map_of (domains st) n = Some d \<and> i < length option \<and> (\<forall>v \<in> set d. j < length v)"
    by simp
  from Cons.IH[OF rest d1] obtain el' where
    "eliminate_neighbors st var option ns el1 = Inr el'" "distinct el'"
    "set el' = set el1 \<union> (\<Union>n \<in> set ns. set (eliminated_by st var option n))"
    by blast
  with ov d e1 s1' show ?case by (auto simp: lookup_def)
qed


lemma node_consistentD:
  "node_consistent st \<Longrightarrow> map_of (domains st) v = Some d \<Longrightarrow> w \<in> set d \<Longrightarrow>
   length w = var_length v"
  by (drule map_of_SomeD) (force simp: node_consistent_def)

lemma keys_member: "map fst d = vs \<Longrightarrow> x \<in> set vs \<Longrightarrow> \<exists>w. map_of d x = Some w"
  using key_map_of[of x d] by force

lemma eliminate_values_no_error:
  assumes wf: "wf_crossword (crossword st)"
    and keys: "map fst (domains st) = variables (crossword st)"
    and nc: "node_consistent st"
    and dv: "lookup (domains st) var = Inr dv" and opt: "option \<in> set dv"
  shows "eliminate_values st var option a = Inr (union_score st var option a)"
proof -
  let ?ns = "filter (\<lambda>neighbor. neighbor \<notin> set (map fst a)) (neighbors (crossword st) var)"
  from dv have m: "map_of (domains st) var = Some dv" by (simp add: lookup_Inr)
  from map_of_key[OF m] have "var \<in> set (map fst (domains st))" by simp
  then have vv: "var \<in> set (variables (crossword st))" unfolding keys .
  from node_consistentD[OF nc m opt] have len: "length option = var_length var" .
  have pre: "\<forall>n \<in> set ?ns. \<exists>i j d. overlaps (crossword st) (var, n) = Some (Some (i, j)) \<and>
             map_of (domains st) n = Some d \<and> i < length option \<and> (\<forall>v \<in> set d. j < length v)"
  proof
    fix n assume "n \<in> set ?ns"
    then have "n \<in> set (neighbors (crossword st) var)" by simp
    with wf_neighbors[OF wf vv, of n] obtain i j where
      nv: "n \<in> set (variables (crossword st))" and
      ov: "overlaps (crossword st) (var, n) = Some (Some (i, j))" by blast
    from wf_overlap(2,3)[OF wf vv nv ov] have rng: "i < var_length var" "j < var_length n" .
    from keys_member[OF keys nv] obtain d where d: "map_of (domains st) n = Some d" by blast
    have "\<forall>v \<in> set d. j < length v"
    proof
      fix v assume "v \<in> set d"
      from node_consistentD[OF nc d this] rng show "j < length v" by simp
    qed
    with ov d rng len show "\<exists>i j d. overlaps (crossword st) (var, n) = Some (Some (i, j)) \<and>
             map_of (domains st) n = Some d \<and> i < length option \<and> (\<forall>v \<in> set d. j < length v)"
      by simp
  qed
  from eliminate_neighbors_spec[OF pre, of "[]"] obtain el where
    el: "eliminate_neighbors st var option ?ns [] = Inr el" and del: "distinct el" and
    sel: "set el = (\<Union>n \<in> set ?ns. set (eliminated_by st var option n))"
    by auto
  have "set ?ns = set (neighbors (crossword st) var) - set (map fst a)" by auto
  with sel del have "length el = union_score st var option a"
    by (simp add: union_score_def distinct_card[symmetric])
  with el show ?thesis by (simp add: eliminate_values_def)
qed

lemma keys_of_total: "\<forall>x \<in> set xs. f x = Inr (g x) \<Longrightarrow> keys_of f xs = Inr (map g xs)"
  by (induction xs) simp_all

lemma insort_key_zip:
  "\<forall>p \<in> set ps. fst p = g (snd p) \<Longrightarrow>
   map snd (insort_key fst (g x, x) ps) = insort_key g x (map snd ps)"
  by (induction ps) auto

lemma set_insort_key_pairs:
  "\<forall>p \<in> set ps. fst p = g (snd p) \<Longrightarrow> \<forall>p \<in> set (insort_key fst (g x, x) ps). fst p = g (snd p)"
  by (simp add: set_insort_key)

lemma sort_key_zip: "map snd (sort_key fst (zip (map g xs) xs)) = sort_key g xs"
proof -
  have "map snd (foldr (insort_key fst) (zip (map g xs) xs) []) = foldr (insort_key g) xs [] \<and>
        (\<forall>p \<in> set (foldr (insort_key fst) (zip (map g xs) xs) []). fst p = g (snd p))"
  proof (induction xs)
    case Nil
    show ?case by simp
  next
    case (Cons x xs)
    let ?ps = "foldr (insort_key fst) (zip (map g xs) xs) []"
    from Cons have a: "map snd ?ps = foldr (insort_key g) xs []" by (rule conjunct1)
    from Cons have b: "\<forall>p \<in> set ?ps. fst p = g (snd p)" by (rule conjunct2)
    have u: "foldr (insort_key fst) (zip (map g (x # xs)) (x # xs)) [] = insort_key fst (g x, x) ?ps"
      by simp
    have v: "foldr (insort_key g) (x # xs) [] = insort_key g x (foldr (insort_key g) xs [])"
      by simp
    show ?case
      unfolding u v a[symmetric]
      using insort_key_zip[OF b, of x] set_insort_key_pairs[OF b, of x] by (rule conjI)
  qed
  then show ?thesis by (simp add: sort_key_def)
qed

lemma sorted_by_total: "\<forall>x \<in> set xs. f x = Inr (g x) \<Longrightarrow> sorted_by f xs = Inr (sort_key g xs)"
  using keys_of_total[of xs f g] by (simp add: sorted_by_def sort_key_zip)

lemma ex5_wf: "wf_crossword ex5_crossword"
  by (simp add: wf_crossword_def ex5_defs is_pair_def)

lemma ex5_eliminate_values: "eliminate_values ex5_node ex5_V ''ace'' [] = Inr 2"
  by (simp add: eliminate_values_def lookup_def getitem_def ex5_defs)

lemma ex5_spec_score: "spec_score ex5_node ex5_V ''ace'' [] = 3"
  by (simp add: spec_score_def eliminated_by_def ex5_defs)

text \<open>
  Claim C5, as stated, fails: in \<open>ex5_node\<close> the word \<open>dog\<close> is ruled out in the domains
  of both neighbours of \<open>ex5_V\<close> by the option \<open>ace\<close>; the sum over the neighbours is 3, and
  \<^verbatim>\<open>eliminate_values\<close> returns 2.
\<close>

theorem eliminate_values_is_not_per_neighbor_sum:
  "eliminate_values ex5_node ex5_V ''ace'' [] = Inr 2 \<and>
   spec_score ex5_node ex5_V ''ace'' [] = 3 \<and>
   eliminate_values ex5_node ex5_V ''ace'' [] \<noteq> Inr (spec_score ex5_node ex5_V ''ace'' [])"
  by (simp add: ex5_eliminate_values ex5_spec_score)

text \<open>
  Claim C5, amended. Over a well-formed problem graph, with the crossword's variables as
  the keys of the domain store and node-consistent domains, the score of a word of \<open>var\<close>'s
  domain is the number of distinct words that are ruled out in the domain of at least one
  neighbour of \<open>var\<close> outside the assignment: one set of eliminated words is shared by all
  neighbours, so a word ruled out in two neighbours' domains counts once.
  \<^verbatim>\<open>order_domain_values\<close> is the stable sort of \<open>var\<close>'s domain by this score.
\<close>

theorem eliminate_values_counts_union:
  assumes "wf_crossword (crossword st)"
    and "map fst (domains st) = variables (crossword st)"
    and "node_consistent st"
    and "lookup (domains st) var = Inr dv"
  shows "(\<forall>option \<in> set dv. eliminate_values st var option a = Inr (union_score st var option a)) \<and>
         order_domain_values st var a = Inr (sort_key (\<lambda>option. union_score st var option a) dv)"
proof -
  have 1: "\<forall>option \<in> set dv. eliminate_values st var option a = Inr (union_score st var option a)"
    using eliminate_values_no_error[OF assms] by blast
  from sorted_by_total[OF 1] assms(4) show ?thesis using 1 by (simp add: order_domain_values_def)
qed

theorem eliminate_values_counts_union_witness:
  "wf_crossword (crossword ex5_node) \<and>
   map fst (domains ex5_node) = variables (crossword ex5_node) \<and>
   node_consistent ex5_node \<and>
   lookup (domains ex5_node) ex5_V = Inr [''ace'', ''dog''] \<and>
   eliminate_values ex5_node ex5_V ''ace'' [] = Inr (union_score ex5_node ex5_V ''ace'' []) \<and>
   union_score ex5_node ex5_V ''ace'' [] = 2 \<and>
   order_domain_values ex5_node ex5_V [] =
     Inr (sort_key (\<lambda>option. union_score ex5_node ex5_V option []) [''ace'', ''dog''])"
proof -
  have wf: "wf_crossword (crossword ex5_node)" using ex5_wf by (simp add: ex5_node_def)
  have k: "map fst (domains ex5_node) = variables (crossword ex5_node)" by (simp add: ex5_defs)
  have n: "node_consistent ex5_node" by (simp add: node_consistent_def ex5_defs)
  have l: "lookup (domains ex5_node) ex5_V = Inr [''ace'', ''dog'']" by (simp add: lookup_def ex5_defs)
  note t = eliminate_values_counts_union[OF wf k n l, of "[]"]
  from t have e: "eliminate_values ex5_node ex5_V ''ace'' [] = Inr (union_score ex5_node ex5_V ''ace'' [])"
    by simp
  with ex5_eliminate_values have u: "union_score ex5_node ex5_V ''ace'' [] = 2" by simp
  from t wf k n l e u show ?thesis by blast
qed

section \<open>The order in which candidate words are tried\<close>

definition ex4_crossword :: Crossword where
  "ex4_crossword = ex5_crossword\<lparr>words := [''dog'', ''ace'', ''ant'', ''arm'', ''eel'', ''dim'', ''gum'']\<rparr>"

definition ex4_arc :: CrosswordCreator where
  "ex4_arc =
     \<lparr>crossword = ex4_crossword,
      domains = [(ex5_V, [''dog'', ''ace'']),
                 (ex5_L, [''dog'', ''ace'', ''ant'', ''arm'', ''dim'']),
                 (ex5_R, [''eel'', ''gum''])]\<rparr>"

lemmas ex4_defs = ex5_V_def ex5_L_def ex5_R_def ex5_crossword_def ex4_crossword_def ex4_arc_def


definition rejected :: "CrosswordCreator \<Rightarrow> assignment \<Rightarrow> Variable \<Rightarrow> string \<Rightarrow> bool" where
  "rejected st a v u \<longleftrightarrow>
     consistent st (AList.update v u a) = Inr False \<or>
     consistent st (AList.update v u a) = Inr True \<and>
       backtrack st (AList.update v u a) = Inr (None, st)"

lemma try_words_rejected_prefix:
  "\<forall>u \<in> set pre. rejected st a v u \<Longrightarrow> try_words st a v (pre @ rest) = try_words st a v rest"
  by (induction pre) (auto simp: rejected_def)

lemma ex4_solve:
  "solve (init ex4_crossword) =
     Inr (Some [(ex5_V, ''dog''), (ex5_R, ''gum''), (ex5_L, ''dim'')], ex4_arc)"
  by (simp add: solve_def enforce_node_consistency_def init_def ac3_def get_arc_queue_def
        revise_def set_remove_def backtrack.simps select_unassigned_variable_def py_min_def
        consistent_def lookup_def getitem_def ex4_defs)


lemma ex4_select: "select_unassigned_variable ex4_arc [] = Inr ex5_V"
  by (simp add: select_unassigned_variable_def py_min_def ex4_defs)

lemma ex4_scores:
  "eliminate_values ex4_arc ex5_V ''dog'' [] = Inr 4"
  "eliminate_values ex4_arc ex5_V ''ace'' [] = Inr 3"
  by (simp_all add: eliminate_values_def lookup_def getitem_def ex4_defs)

lemma ex4_order: "order_domain_values ex4_arc ex5_V [] = Inr [''ace'', ''dog'']"
proof -
  have l: "lookup (domains ex4_arc) ex5_V = Inr [''dog'', ''ace'']"
    by (simp add: lookup_def ex4_defs)
  have k: "keys_of (\<lambda>option. eliminate_values ex4_arc ex5_V option []) [''dog'', ''ace''] = Inr [4, 3]"
    by (simp add: ex4_scores)
  show ?thesis by (simp add: order_domain_values_def sorted_by_def l k del: keys_of.simps)
qed

lemma ex4_backtrack:
  "backtrack ex4_arc [] = Inr (Some [(ex5_V, ''dog''), (ex5_R, ''gum''), (ex5_L, ''dim'')], ex4_arc)"
  by (simp add: backtrack.simps select_unassigned_variable_def py_min_def
        consistent_def lookup_def getitem_def ex4_defs)

lemma ex4_try_sorted:
  "try_words ex4_arc [] ex5_V [''ace'', ''dog''] =
     Inr (Some [(ex5_V, ''ace''), (ex5_R, ''eel''), (ex5_L, ''ant'')], ex4_arc)"
  by (simp add: backtrack.simps select_unassigned_variable_def py_min_def
        consistent_def lookup_def getitem_def ex4_defs)

text \<open>
  Claim C4, as stated, fails. In \<open>ex4_arc\<close> (the creator that \<^verbatim>\<open>solve\<close> reaches from the
  vocabulary dog, ace, ant, arm, eel, dim, gum) the search selects \<open>ex5_V\<close>, whose domain
  iterates as dog, ace. The scores are 4 for dog and 3 for ace, so
  \<^verbatim>\<open>order_domain_values\<close> puts ace first; the search run over that order would return the
  assignment with ace. \<^verbatim>\<open>backtrack\<close> returns the one with dog: it took the higher-scoring
  word first.
\<close>

theorem backtrack_ignores_order_domain_values:
  "solve (init ex4_crossword) =
     Inr (Some [(ex5_V, ''dog''), (ex5_R, ''gum''), (ex5_L, ''dim'')], ex4_arc) \<and>
   select_unassigned_variable ex4_arc [] = Inr ex5_V \<and>
   lookup (domains ex4_arc) ex5_V = Inr [''dog'', ''ace''] \<and>
   eliminate_values ex4_arc ex5_V ''dog'' [] = Inr 4 \<and>
   eliminate_values ex4_arc ex5_V ''ace'' [] = Inr 3 \<and>
   order_domain_values ex4_arc ex5_V [] = Inr [''ace'', ''dog''] \<and>
   try_words ex4_arc [] ex5_V [''ace'', ''dog''] =
     Inr (Some [(ex5_V, ''ace''), (ex5_R, ''eel''), (ex5_L, ''ant'')], ex4_arc) \<and>
   backtrack ex4_arc [] =
     Inr (Some [(ex5_V, ''dog''), (ex5_R, ''gum''), (ex5_L, ''dim'')], ex4_arc) \<and>
   backtrack ex4_arc [] \<noteq> try_words ex4_arc [] ex5_V [''ace'', ''dog'']"
proof -
  have l: "lookup (domains ex4_arc) ex5_V = Inr [''dog'', ''ace'']"
    by (simp add: lookup_def ex4_defs)
  have ne: "backtrack ex4_arc [] \<noteq> try_words ex4_arc [] ex5_V [''ace'', ''dog'']"
    unfolding ex4_backtrack ex4_try_sorted by simp
  from ex4_solve ex4_select l ex4_scores ex4_order ex4_try_sorted ex4_backtrack ne
  show ?thesis by blast
qed

text \<open>
  Claim C4, amended. After \<^verbatim>\<open>backtrack\<close> has selected an unassigned variable it tries the
  words of that variable's domain in the domain's own iteration order, whatever their
  scores: when every word before \<open>w\<close> in that order is rejected (the extended assignment is
  inconsistent, or the search below it fails) and \<open>w\<close> leads to the assignment \<open>r\<close>, the
  call returns \<open>r\<close>; when every word of the domain is rejected, it returns \<open>None\<close>.
\<close>

theorem backtrack_tries_words_in_domain_order:
  assumes "length (map fst a) \<noteq> length (variables (crossword st))"
    and "select_unassigned_variable st a = Inr v"
  shows "(lookup (domains st) v = Inr (pre @ w # post) \<and> (\<forall>u \<in> set pre. rejected st a v u) \<and>
          consistent st (AList.update v w a) = Inr True \<and>
          backtrack st (AList.update v w a) = Inr (Some r, st) \<longrightarrow>
            backtrack st a = Inr (Some r, st)) \<and>
         (lookup (domains st) v = Inr d \<and> (\<forall>u \<in> set d. rejected st a v u) \<longrightarrow>
            backtrack st a = Inr (None, st))"
proof (intro conjI impI)
  assume h: "lookup (domains st) v = Inr (pre @ w # post) \<and> (\<forall>u \<in> set pre. rejected st a v u) \<and>
          consistent st (AList.update v w a) = Inr True \<and>
          backtrack st (AList.update v w a) = Inr (Some r, st)"
  then have "backtrack st a = try_words st a v (pre @ w # post)"
    using assms by (simp add: backtrack.simps)
  also have "\<dots> = try_words st a v (w # post)"
    using h by (intro try_words_rejected_prefix) simp
  also have "\<dots> = Inr (Some r, st)" using h by simp
  finally show "backtrack st a = Inr (Some r, st)" .
next
  assume h: "lookup (domains st) v = Inr d \<and> (\<forall>u \<in> set d. rejected st a v u)"
  then have "backtrack st a = try_words st a v (d @ [])"
    using assms by (simp add: backtrack.simps)
  also have "\<dots> = try_words st a v []"
    using h by (intro try_words_rejected_prefix) simp
  finally show "backtrack st a = Inr (None, st)" by simp
qed

lemma ex_backtrack_last:
  "backtrack ex_arc [(ex_C, ''hello''), (ex_A, ''ace''), (ex_B, ''cat'')] =
     Inr (Some [(ex_C, ''hello''), (ex_A, ''ace''), (ex_B, ''cat'')], ex_arc)"
  by (simp add: backtrack.simps ex_defs ex_arc_def)

theorem backtrack_tries_words_in_domain_order_witness:
  "length (map fst [(ex_C, ''hello''), (ex_A, ''ace'')]) \<noteq> length (variables (crossword ex_arc)) \<and>
   select_unassigned_variable ex_arc [(ex_C, ''hello''), (ex_A, ''ace'')] = Inr ex_B \<and>
   lookup (domains ex_arc) ex_B = Inr ([''ace''] @ ''cat'' # []) \<and>
   rejected ex_arc [(ex_C, ''hello''), (ex_A, ''ace'')] ex_B ''ace'' \<and>
   consistent ex_arc (AList.update ex_B ''cat'' [(ex_C, ''hello''), (ex_A, ''ace'')]) = Inr True \<and>
   backtrack ex_arc [(ex_C, ''hello''), (ex_A, ''ace'')] =
     Inr (Some [(ex_C, ''hello''), (ex_A, ''ace''), (ex_B, ''cat'')], ex_arc) \<and>
   lookup (domains ex_hole) ex_C = Inr [] \<and>
   backtrack ex_hole [] = Inr (None, ex_hole)"
proof -
  let ?a = "[(ex_C, ''hello''), (ex_A, ''ace'')]"
  have n: "length (map fst ?a) \<noteq> length (variables (crossword ex_arc))"
    by (simp add: ex_defs ex_arc_def)
  have s: "select_unassigned_variable ex_arc ?a = Inr ex_B"
    by (simp add: select_unassigned_variable_def py_min_def ex_defs ex_arc_def)
  have l: "lookup (domains ex_arc) ex_B = Inr ([''ace''] @ ''cat'' # [])"
    by (simp add: lookup_def ex_defs ex_arc_def)
  have rj: "rejected ex_arc ?a ex_B ''ace''"
    by (simp add: rejected_def consistent_def ex_defs)
  have c: "consistent ex_arc (AList.update ex_B ''cat'' ?a) = Inr True"
    by (simp add: consistent_def lookup_def getitem_def ex_defs ex_arc_def)
  have b: "backtrack ex_arc (AList.update ex_B ''cat'' ?a) =
      Inr (Some [(ex_C, ''hello''), (ex_A, ''ace''), (ex_B, ''cat'')], ex_arc)"
    using ex_backtrack_last by (simp add: ex_defs)
  have n2: "length (map fst ([] :: assignment)) \<noteq> length (variables (crossword ex_hole))"
    by (simp add: ex_defs ex_hole_def)
  have s2: "select_unassigned_variable ex_hole [] = Inr ex_C"
    by (simp add: select_unassigned_variable_def py_min_def ex_defs ex_hole_def)
  have l2: "lookup (domains ex_hole) ex_C = Inr []"
    by (simp add: lookup_def ex_defs ex_hole_def)
  from backtrack_tries_words_in_domain_order[OF n s, of "[''ace'']" "''cat''" "[]"
      "[(ex_C, ''hello''), (ex_A, ''ace''), (ex_B, ''cat'')]"] l rj c b
  have 1: "backtrack ex_arc ?a = Inr (Some [(ex_C, ''hello''), (ex_A, ''ace''), (ex_B, ''cat'')], ex_arc)"
    by simp
  from backtrack_tries_words_in_domain_order[OF n2 s2, of _ _ _ _ "[]"] l2
  have 2: "backtrack ex_hole [] = Inr (None, ex_hole)" by simp
  from n s l rj c 1 l2 2 show ?thesis by blast
qed

section \<open>Arc consistency\<close>

text \<open>
  A word \<open>w\<close> of \<open>x\<close> is supported by \<open>y\<close> when some word of \<open>y\<close>'s domain agrees with it
  at the overlap \<open>(ix, iy)\<close>; the arc \<open>(x, y)\<close> is consistent when every word of \<open>x\<close>'s domain
  is supported.
\<close>

definition supported :: "CrosswordCreator \<Rightarrow> Variable \<Rightarrow> nat \<Rightarrow> nat \<Rightarrow> string \<Rightarrow> bool" where
  "supported st y ix iy w \<longleftrightarrow>
     (\<exists>dy. map_of (domains st) y = Some dy \<and>
        (\<exists>v \<in> set dy. ix < length w \<and> iy < length v \<and> w ! ix = v ! iy))"

definition arc_ok :: "CrosswordCreator \<Rightarrow> Variable \<Rightarrow> Variable \<Rightarrow> bool" where
  "arc_ok st x y \<longleftrightarrow>
     (\<forall>ix iy dx w. overlaps (crossword st) (x, y) = Some (Some (ix, iy)) \<longrightarrow>
        map_of (domains st) x = Some dx \<longrightarrow> w \<in> set dx \<longrightarrow> supported st y ix iy w)"

lemma any_agree_Inr:
  "any_agree w ix iy dy = Inr b \<Longrightarrow>
   b = (\<exists>v \<in> set dy. ix < length w \<and> iy < length v \<and> w ! ix = v ! iy)"
proof (induction dy)
  case Nil
  then show ?case by simp
next
  case (Cons v dy)
  from Cons.prems have w: "ix < length w" and v: "iy < length v"
    by (auto simp: getitem_def split: if_splits)
  show ?case
  proof (cases "w ! ix = v ! iy")
    case True
    with Cons.prems w v show ?thesis by (auto simp: getitem_def)
  next
    case False
    with Cons.prems w v have "any_agree w ix iy dy = Inr b" by (simp add: getitem_def)
    from Cons.IH[OF this] False show ?thesis by auto
  qed
qed

lemma supported_cong:
  "map_of (domains st') y = map_of (domains st) y \<Longrightarrow> supported st' y ix iy w = supported st y ix iy w"
  by (simp add: supported_def)

lemma revise_words_result:
  "x \<noteq> y \<Longrightarrow> revise_words x y ix iy ws r st = Inr (r', st1) \<Longrightarrow>
   map_of (domains st) x = Some cur \<Longrightarrow>
   \<exists>cur1. map_of (domains st1) x = Some cur1 \<and>
          set cur1 = set cur - {w \<in> set ws. \<not> supported st y ix iy w}"
proof (induction ws arbitrary: r st cur)
  case Nil
  then show ?case by simp
next
  case (Cons w ws)
  from Cons.prems(2) obtain dy b where
    dy: "lookup (domains st) y = Inr dy" and b: "any_agree w ix iy dy = Inr b"
    by (auto split: sum.splits)
  from dy have my: "map_of (domains st) y = Some dy" by (simp add: lookup_Inr)
  from any_agree_Inr[OF b] my have bs: "b = supported st y ix iy w"
    by (simp add: supported_def)
  show ?case
  proof (cases b)
    case True
    with Cons.prems(2) dy b have "revise_words x y ix iy ws r st = Inr (r', st1)" by simp
    from Cons.IH[OF Cons.prems(1) this Cons.prems(3)] obtain cur1 where
      c1: "map_of (domains st1) x = Some cur1"
        "set cur1 = set cur - {w \<in> set ws. \<not> supported st y ix iy w}" by blast
    from c1(2) True bs have "set cur1 = set cur - {u \<in> set (w # ws). \<not> supported st y ix iy u}"
      by auto
    with c1(1) show ?thesis by blast
  next
    case False
    let ?st2 = "st\<lparr>domains := AList.update x (removeAll w cur) (domains st)\<rparr>"
    from False Cons.prems(2,3) dy b have rec: "revise_words x y ix iy ws True ?st2 = Inr (r', st1)"
      by (auto simp: lookup_def set_remove_def split: sum.splits if_splits)
    have m2: "map_of (domains ?st2) x = Some (removeAll w cur)" by (simp add: update_conv')
    have y2: "map_of (domains ?st2) y = map_of (domains st) y"
      using Cons.prems(1) by (simp add: update_conv')
    from Cons.IH[OF Cons.prems(1) rec m2] obtain cur1 where
      c1: "map_of (domains st1) x = Some cur1"
        "set cur1 = set (removeAll w cur) - {u \<in> set ws. \<not> supported ?st2 y ix iy u}" by blast
    have "\<And>u. supported ?st2 y ix iy u = supported st y ix iy u"
      by (rule supported_cong[OF y2])
    with c1(2) False bs have "set cur1 = set cur - {u \<in> set (w # ws). \<not> supported st y ix iy u}"
      by auto
    with c1(1) show ?thesis by blast
  qed
qed

lemma revise_result:
  assumes "x \<noteq> y" and "overlaps (crossword st) (x, y) = Some (Some (ix, iy))"
    and "revise st x y = Inr (r, st1)"
  shows "\<exists>dx dx1. map_of (domains st) x = Some dx \<and> map_of (domains st1) x = Some dx1 \<and>
           set dx1 = {w \<in> set dx. supported st y ix iy w}"
proof -
  from assms(2,3) obtain dx where dx: "lookup (domains st) x = Inr dx" and
    rw: "revise_words x y ix iy dx False st = Inr (r, st1)"
    by (auto simp: revise_def split: sum.splits)
  from dx have m: "map_of (domains st) x = Some dx" by (simp add: lookup_Inr)
  from revise_words_result[OF assms(1) rw m] obtain dx1 where
    "map_of (domains st1) x = Some dx1" "set dx1 = set dx - {w \<in> set dx. \<not> supported st y ix iy w}"
    by blast
  moreover have "set dx - {w \<in> set dx. \<not> supported st y ix iy w} = {w \<in> set dx. supported st y ix iy w}"
    by auto
  ultimately show ?thesis using m by simp
qed


lemma revise_overlap_defined: "revise st x y = Inr p \<Longrightarrow> overlaps (crossword st) (x, y) \<noteq> None"
  by (cases "overlaps (crossword st) (x, y)") (simp_all add: revise_def)

lemma revise_True_overlap:
  "revise st x y = Inr (True, st1) \<Longrightarrow> \<exists>ix iy. overlaps (crossword st) (x, y) = Some (Some (ix, iy))"
  by (auto simp: revise_def split: option.splits)

lemma revise_crossword: "revise st x y = Inr (r, st1) \<Longrightarrow> crossword st1 = crossword st"
  using revise_shape(1)[of st x y r st1] by (simp add: same_shape_def)

lemma arc_ok_after_revise:
  assumes "x \<noteq> y" and rv: "revise st x y = Inr (r, st1)"
  shows "arc_ok st1 x y"
  unfolding arc_ok_def
proof (intro allI impI)
  fix ix iy dx1 w
  assume ov1: "overlaps (crossword st1) (x, y) = Some (Some (ix, iy))"
    and m1: "map_of (domains st1) x = Some dx1" and w: "w \<in> set dx1"
  from ov1 revise_crossword[OF rv] have ov: "overlaps (crossword st) (x, y) = Some (Some (ix, iy))"
    by simp
  from revise_result[OF assms(1) ov rv] m1 obtain dx where
    "set dx1 = {w \<in> set dx. supported st y ix iy w}" by auto
  with w have "supported st y ix iy w" by simp
  moreover have "map_of (domains st1) y = map_of (domains st) y"
    using revise_shape(2)[OF rv, of y] assms(1) by simp
  ultimately show "supported st1 y ix iy w"
    using supported_cong[of st1 y st ix iy w] by simp
qed

lemma revise_shrinks:
  assumes "x \<noteq> y" and rv: "revise st x y = Inr (r, st1)"
    and m1: "map_of (domains st1) z = Some d1"
  shows "\<exists>d. map_of (domains st) z = Some d \<and> set d1 \<subseteq> set d"
proof (cases r)
  case False
  with revise_size[OF rv] m1 show ?thesis by auto
next
  case True
  show ?thesis
  proof (cases "z = x")
    case False
    from revise_shape(2)[OF rv False] m1 have "map_of (domains st) z = Some d1" by simp
    then show ?thesis by blast
  next
    case zx: True
    from True rv have "revise st x y = Inr (True, st1)" by simp
    from revise_True_overlap[OF this] obtain ix iy where
      ov: "overlaps (crossword st) (x, y) = Some (Some (ix, iy))" by blast
    from revise_result[OF assms(1) ov rv] m1 zx show ?thesis by auto
  qed
qed

lemma arc_ok_kept:
  assumes "x \<noteq> y" and rv: "revise st x y = Inr (r, st1)"
    and "y' \<noteq> x" and ok: "arc_ok st x' y'"
  shows "arc_ok st1 x' y'"
  unfolding arc_ok_def
proof (intro allI impI)
  fix ix iy d1 w
  assume ov1: "overlaps (crossword st1) (x', y') = Some (Some (ix, iy))"
    and m1: "map_of (domains st1) x' = Some d1" and w: "w \<in> set d1"
  from ov1 revise_crossword[OF rv] have ov: "overlaps (crossword st) (x', y') = Some (Some (ix, iy))"
    by simp
  from revise_shrinks[OF assms(1) rv m1] obtain d where
    d: "map_of (domains st) x' = Some d" "set d1 \<subseteq> set d" by blast
  with w have "w \<in> set d" by blast
  with ok ov d(1) have "supported st y' ix iy w" unfolding arc_ok_def by blast
  moreover have "map_of (domains st1) y' = map_of (domains st) y'"
    using revise_shape(2)[OF rv assms(3)] .
  ultimately show "supported st1 y' ix iy w"
    using supported_cong[of st1 y' st ix iy w] by simp
qed

lemma arc_ok_reverse:
  assumes wf: "wf_crossword (crossword st)"
    and x: "x \<in> set (variables (crossword st))" and y: "y \<in> set (variables (crossword st))"
    and rv: "revise st x y = Inr (r, st1)" and ok: "arc_ok st y x"
  shows "arc_ok st1 y x"
proof (cases r)
  case False
  with revise_size[OF rv] ok show ?thesis by simp
next
  case True
  from True rv have "revise st x y = Inr (True, st1)" by simp
  from revise_True_overlap[OF this] obtain ix iy where
    ov: "overlaps (crossword st) (x, y) = Some (Some (ix, iy))" by blast
  note sym = wf_overlap(1)[OF wf x y ov] and ne = wf_overlap(4)[OF wf x y ov]
  from revise_result[OF ne ov rv] obtain dx dx1 where
    dx: "map_of (domains st) x = Some dx" and dx1: "map_of (domains st1) x = Some dx1" and
    keep: "set dx1 = {w \<in> set dx. supported st y ix iy w}" by blast
  have my: "map_of (domains st1) y = map_of (domains st) y"
    using revise_shape(2)[OF rv, of y] ne by simp
  show ?thesis
    unfolding arc_ok_def
  proof (intro allI impI)
    fix ix' iy' dy v
    assume ov1: "overlaps (crossword st1) (y, x) = Some (Some (ix', iy'))"
      and m1: "map_of (domains st1) y = Some dy" and v: "v \<in> set dy"
    from ov1 revise_crossword[OF rv] sym have ii: "ix' = iy" "iy' = ix" by simp_all
    from m1 my have m: "map_of (domains st) y = Some dy" by simp
    from ok sym m v have "supported st x iy ix v" unfolding arc_ok_def by blast
    with dx obtain w where w: "w \<in> set dx" "iy < length v" "ix < length w" "v ! iy = w ! ix"
      by (auto simp: supported_def)
    from w m v have "supported st y ix iy w" unfolding supported_def by auto
    with keep w(1) have "w \<in> set dx1" by simp
    with dx1 w ii show "supported st1 x ix' iy' v" unfolding supported_def by auto
  qed
qed


text \<open>The invariant of the worklist loop: an arc between two variables is consistent or queued.\<close>

definition pending :: "(Variable \<times> Variable) list \<Rightarrow> CrosswordCreator \<Rightarrow> bool" where
  "pending arcs st \<longleftrightarrow>
     set arcs \<subseteq> set (variables (crossword st)) \<times> set (variables (crossword st)) \<and>
     (\<forall>x \<in> set (variables (crossword st)). \<forall>y \<in> set (variables (crossword st)).
        (x, y) \<in> set arcs \<or> arc_ok st x y)"

lemma pending_step_unrevised:
  assumes wf: "wf_crossword (crossword st)" and p: "pending ((x, y) # arcs) st"
    and rv: "revise st x y = Inr (False, st1)"
  shows "pending arcs st1"
proof -
  from revise_size[OF rv] have st1: "st1 = st" by simp
  from p have xv: "x \<in> set (variables (crossword st))" and yv: "y \<in> set (variables (crossword st))"
    by (simp_all add: pending_def)
  have ne: "x \<noteq> y"
  proof
    assume "x = y"
    with bspec[OF bspec[OF wf_pairs[OF wf] xv] yv] have "overlaps (crossword st) (x, y) = None"
      by blast
    with revise_overlap_defined[OF rv] show False by simp
  qed
  have okxy: "arc_ok st x y" using arc_ok_after_revise[OF ne rv] st1 by simp
  show ?thesis
    unfolding pending_def st1
  proof (intro conjI ballI)
    show "set arcs \<subseteq> set (variables (crossword st)) \<times> set (variables (crossword st))"
      using p by (simp add: pending_def)
  next
    fix x' y'
    assume "x' \<in> set (variables (crossword st))" "y' \<in> set (variables (crossword st))"
    with p have "(x', y') \<in> set ((x, y) # arcs) \<or> arc_ok st x' y'" unfolding pending_def by blast
    with okxy show "(x', y') \<in> set arcs \<or> arc_ok st x' y'" by auto
  qed
qed

lemma pending_step_revised:
  assumes wf: "wf_crossword (crossword st)" and p: "pending ((x, y) # arcs) st"
    and rv: "revise st x y = Inr (True, st1)"
  shows "pending (arcs @ map (\<lambda>neighbor. (neighbor, x))
                        (filter (\<lambda>neighbor. neighbor \<noteq> y) (neighbors (crossword st1) x))) st1"
    (is "pending ?Q st1")
proof -
  let ?V = "set (variables (crossword st))"
  from revise_crossword[OF rv] have cw: "crossword st1 = crossword st" .
  from p have xv: "x \<in> ?V" and yv: "y \<in> ?V" by (simp_all add: pending_def)
  from revise_True_overlap[OF rv] obtain ix iy where
    ov: "overlaps (crossword st) (x, y) = Some (Some (ix, iy))" by blast
  note ne = wf_overlap(4)[OF wf xv yv ov]
  have okxy: "arc_ok st1 x y" by (rule arc_ok_after_revise[OF ne rv])
  have sub: "set ?Q \<subseteq> ?V \<times> ?V"
  proof -
    have "set (neighbors (crossword st) x) \<subseteq> ?V" using wf_neighbors[OF wf xv] by blast
    moreover from p have "set arcs \<subseteq> ?V \<times> ?V" by (simp add: pending_def)
    ultimately show ?thesis using xv cw by auto
  qed
  have each: "(x', y') \<in> set ?Q \<or> arc_ok st1 x' y'" if x': "x' \<in> ?V" and y': "y' \<in> ?V" for x' y'
  proof -
    from p x' y' have old: "(x', y') \<in> set ((x, y) # arcs) \<or> arc_ok st x' y'"
      unfolding pending_def by blast
    show ?thesis
    proof (cases "(x', y') = (x, y)")
      case True
      with okxy show ?thesis by simp
    next
      case nxy: False
      show ?thesis
      proof (cases "y' = x")
        case False
        from old nxy have "(x', y') \<in> set arcs \<or> arc_ok st x' y'" by auto
        with arc_ok_kept[OF ne rv False, of x'] show ?thesis by auto
      next
        case True
        show ?thesis
        proof (cases "x' = y")
          case xy: True
          from old True xy ne have "(y, x) \<in> set arcs \<or> arc_ok st y x" by auto
          with arc_ok_reverse[OF wf xv yv rv] True xy show ?thesis by auto
        next
          case nxy': False
          show ?thesis
          proof (cases "x' \<in> set (neighbors (crossword st) x)")
            case True
            with nxy' \<open>y' = x\<close> cw show ?thesis by simp
          next
            case nn: False
            have "arc_ok st1 x' x"
              unfolding arc_ok_def
            proof (intro allI impI)
              fix i j dx w
              assume "overlaps (crossword st1) (x', x) = Some (Some (i, j))"
              with cw have o: "overlaps (crossword st) (x', x) = Some (Some (i, j))" by simp
              from wf_overlap(1)[OF wf x' xv o] have "overlaps (crossword st) (x, x') = Some (Some (j, i))" .
              with wf_neighbors[OF wf xv, of x'] x' nn show "supported st1 x i j w" by blast
            qed
            with \<open>y' = x\<close> show ?thesis by simp
          qed
        qed
      qed
    qed
  qed
  show ?thesis
    using sub each unfolding pending_def cw by blast
qed

lemma ac3_loop_arc_consistent:
  "wf_crossword (crossword st) \<Longrightarrow> pending arcs st \<Longrightarrow> ac3_loop arcs st = Inr (True, st') \<Longrightarrow>
   pending [] st'"
proof (induction arcs st rule: ac3_loop.induct)
  case (1 st)
  then show ?case by simp
next
  case (2 x y arcs st)
  from "2.prems"(3) obtain revised st1 where rv: "revise st x y = Inr (revised, st1)"
    by (auto split: sum.splits)
  from revise_crossword[OF rv] "2.prems"(1) have wf1: "wf_crossword (crossword st1)" by simp
  show ?case
  proof (cases revised)
    case False
    with "2.prems"(3) rv have run: "ac3_loop arcs st1 = Inr (True, st')" by simp
    from rv False have rv': "revise st x y = Inr (False, st1)" by simp
    from "2.IH"(2)[OF rv refl False wf1 pending_step_unrevised[OF "2.prems"(1,2) rv'] run]
    show ?thesis .
  next
    case True
    with "2.prems"(3) rv obtain dx where dx: "lookup (domains st1) x = Inr dx"
      by (auto split: sum.splits)
    with "2.prems"(3) rv True have ne: "length dx \<noteq> 0" by (auto split: if_splits)
    with "2.prems"(3) rv True dx have run:
      "ac3_loop (arcs @ map (\<lambda>neighbor. (neighbor, x))
          (filter (\<lambda>neighbor. neighbor \<noteq> y) (neighbors (crossword st1) x))) st1 = Inr (True, st')"
      by simp
    from rv True have rv': "revise st x y = Inr (True, st1)" by simp
    from "2.IH"(1)[OF rv refl True dx ne wf1 pending_step_revised[OF "2.prems"(1,2) rv'] run]
    show ?thesis .
  qed
qed

lemma pending_default_queue:
  assumes wf: "wf_crossword (crossword st)"
  shows "pending (get_arc_queue st None) st"
  unfolding pending_def
proof (intro conjI ballI)
  show "set (get_arc_queue st None) \<subseteq> set (variables (crossword st)) \<times> set (variables (crossword st))"
    using wf_neighbors[OF wf] by (auto simp: get_arc_queue_def)
next
  fix x y
  assume x: "x \<in> set (variables (crossword st))" and y: "y \<in> set (variables (crossword st))"
  show "(x, y) \<in> set (get_arc_queue st None) \<or> arc_ok st x y"
  proof (cases "y \<in> set (neighbors (crossword st) x)")
    case True
    with x show ?thesis by (auto simp: get_arc_queue_def)
  next
    case False
    with wf_neighbors[OF wf x, of y] y have "arc_ok st x y" unfolding arc_ok_def by blast
    then show ?thesis ..
  qed
qed


lemma ac3_default_arc_ok:
  assumes wf: "wf_crossword (crossword st)" and run: "ac3 st None = Inr (True, st')"
    and x: "x \<in> set (variables (crossword st))" and y: "y \<in> set (variables (crossword st))"
  shows "arc_ok st' x y"
proof -
  from run have l: "ac3_loop (get_arc_queue st None) st = Inr (True, st')" by (simp add: ac3_def)
  from ac3_loop_shape[OF l] have cw: "crossword st' = crossword st" by (simp add: same_shape_def)
  from ac3_loop_arc_consistent[OF wf pending_default_queue[OF wf] l] x y cw
  show ?thesis by (simp add: pending_def)
qed

text \<open>
  Claim C2. Over a well-formed problem graph, when \<^verbatim>\<open>ac3()\<close> with the default worklist
  returns \<open>True\<close>, every word \<open>w\<close> left in the domain of a variable \<open>x\<close> has, for every
  variable \<open>y\<close> that overlaps \<open>x\<close> at \<open>(ix, iy)\<close>, a word \<open>v\<close> in \<open>y\<close>'s domain with
  \<open>w[ix] = v[iy]\<close> (both indices inside the words).
\<close>

theorem ac3_success_is_arc_consistent:
  assumes "wf_crossword (crossword st)" and "ac3 st None = Inr (True, st')"
  shows "\<forall>x \<in> set (variables (crossword st)). \<forall>y \<in> set (variables (crossword st)).
           \<forall>ix iy dx w.
             overlaps (crossword st) (x, y) = Some (Some (ix, iy)) \<and>
             lookup (domains st') x = Inr dx \<and> w \<in> set dx \<longrightarrow>
             (\<exists>dy. lookup (domains st') y = Inr dy \<and>
                (\<exists>v \<in> set dy. ix < length w \<and> iy < length v \<and> w ! ix = v ! iy))"
proof (intro ballI allI impI)
  fix x y ix iy dx w
  assume x: "x \<in> set (variables (crossword st))" and y: "y \<in> set (variables (crossword st))"
    and h: "overlaps (crossword st) (x, y) = Some (Some (ix, iy)) \<and>
             lookup (domains st') x = Inr dx \<and> w \<in> set dx"
  from assms(2) have "same_shape st st'" by (rule ac3_shape)
  then have cw: "crossword st' = crossword st" by (simp add: same_shape_def)
  from ac3_default_arc_ok[OF assms x y] h cw have "supported st' y ix iy w"
    unfolding arc_ok_def by (simp add: lookup_Inr)
  then show "\<exists>dy. lookup (domains st') y = Inr dy \<and>
                (\<exists>v \<in> set dy. ix < length w \<and> iy < length v \<and> w ! ix = v ! iy)"
    by (simp add: supported_def lookup_Inr)
qed

theorem ac3_success_is_arc_consistent_witness:
  "wf_crossword (crossword ex_node) \<and> ac3 ex_node None = Inr (True, ex_arc) \<and>
   ex_A \<in> set (variables (crossword ex_node)) \<and> ex_B \<in> set (variables (crossword ex_node)) \<and>
   overlaps (crossword ex_node) (ex_A, ex_B) = Some (Some (0, 1)) \<and>
   lookup (domains ex_arc) ex_A = Inr [''ace'', ''cat''] \<and> ''ace'' \<in> set [''ace'', ''cat''] \<and>
   (\<exists>dy. lookup (domains ex_arc) ex_B = Inr dy \<and>
      (\<exists>v \<in> set dy. 0 < length ''ace'' \<and> 1 < length v \<and> ''ace'' ! 0 = v ! 1))"
proof -
  have wf: "wf_crossword (crossword ex_node)" using ex_wf by (simp add: ex_node_def)
  have a: "ex_A \<in> set (variables (crossword ex_node))" by (simp add: ex_defs)
  have b: "ex_B \<in> set (variables (crossword ex_node))" by (simp add: ex_defs)
  have o: "overlaps (crossword ex_node) (ex_A, ex_B) = Some (Some (0, 1))" by (simp add: ex_defs)
  have l: "lookup (domains ex_arc) ex_A = Inr [''ace'', ''cat'']"
    by (simp add: lookup_def ex_defs ex_arc_def)
  have m: "''ace'' \<in> set [''ace'', ''cat'']" by simp
  from ac3_success_is_arc_consistent[OF wf ex_ac3, rule_format, OF a b, of 0 1 "[''ace'', ''cat'']" "''ace''"]
    o l m
  have "\<exists>dy. lookup (domains ex_arc) ex_B = Inr dy \<and>
      (\<exists>v \<in> set dy. 0 < length ''ace'' \<and> 1 < length v \<and> ''ace'' ! 0 = v ! 1)" by blast
  with wf ex_ac3 a b o l m show ?thesis by blast
qed

section \<open>Pruning reaches a fixed point\<close>

definition clean :: "CrosswordCreator \<Rightarrow> Variable \<Rightarrow> bool" where
  "clean st var \<longleftrightarrow>
     (\<forall>d. map_of (domains st) var = Some d \<longrightarrow> (\<forall>w \<in> set d. length w = var_length var))"

lemma node_words_result:
  "node_words var ws st = Inr st1 \<Longrightarrow> map_of (domains st) var = Some cur \<Longrightarrow>
   (\<exists>cur1. map_of (domains st1) var = Some cur1 \<and>
      set cur1 = set cur - {w \<in> set ws. length w \<noteq> var_length var}) \<and>
   (\<forall>z. z \<noteq> var \<longrightarrow> map_of (domains st1) z = map_of (domains st) z)"
proof (induction ws arbitrary: st cur)
  case Nil
  then show ?case by simp
next
  case (Cons w ws)
  show ?case
  proof (cases "length w \<noteq> var_length var")
    case False
    with Cons.prems have "node_words var ws st = Inr st1" by simp
    from Cons.IH[OF this Cons.prems(2)] False show ?thesis by auto
  next
    case True
    let ?st2 = "st\<lparr>domains := AList.update var (removeAll w cur) (domains st)\<rparr>"
    from True Cons.prems have rec: "node_words var ws ?st2 = Inr st1"
      by (auto simp: lookup_def set_remove_def split: sum.splits if_splits)
    have m2: "map_of (domains ?st2) var = Some (removeAll w cur)" by (simp add: update_conv')
    from Cons.IH[OF rec m2] obtain cur1 where
      c: "map_of (domains st1) var = Some cur1"
         "set cur1 = set (removeAll w cur) - {u \<in> set ws. length u \<noteq> var_length var}"
      and o: "\<forall>z. z \<noteq> var \<longrightarrow> map_of (domains st1) z = map_of (domains ?st2) z"
      by blast
    from c(2) True have "set cur1 = set cur - {u \<in> set (w # ws). length u \<noteq> var_length var}"
      by auto
    moreover from o have "\<forall>z. z \<noteq> var \<longrightarrow> map_of (domains st1) z = map_of (domains st) z"
      by (simp add: update_conv')
    ultimately show ?thesis using c(1) by blast
  qed
qed

lemma node_words_clean:
  assumes "node_words var d st = Inr st1" and "map_of (domains st) var = Some d"
  shows "clean st1 var" and "clean st z \<Longrightarrow> clean st1 z"
proof -
  from node_words_result[OF assms] obtain cur1 where
    c: "map_of (domains st1) var = Some cur1"
       "set cur1 = set d - {w \<in> set d. length w \<noteq> var_length var}"
    and o: "\<forall>z. z \<noteq> var \<longrightarrow> map_of (domains st1) z = map_of (domains st) z"
    by blast
  from c show v: "clean st1 var" by (auto simp: clean_def)
  show "clean st1 z" if "clean st z"
  proof (cases "z = var")
    case True
    with v show ?thesis by simp
  next
    case False
    with o that show ?thesis by (simp add: clean_def)
  qed
qed

lemma node_vars_clean:
  "node_vars vars st = Inr st1 \<Longrightarrow>
   (\<forall>v \<in> set vars. clean st1 v) \<and> (\<forall>z. clean st z \<longrightarrow> clean st1 z)"
proof (induction vars arbitrary: st)
  case Nil
  then show ?case by simp
next
  case (Cons var vars)
  from Cons.prems obtain d st2 where
    d: "lookup (domains st) var = Inr d" and nw: "node_words var d st = Inr st2" and
    rec: "node_vars vars st2 = Inr st1"
    by (auto split: sum.splits)
  from d have m: "map_of (domains st) var = Some d" by (simp add: lookup_Inr)
  note c = node_words_clean[OF nw m]
  from Cons.IH[OF rec] have ih: "\<forall>v \<in> set vars. clean st1 v" "\<forall>z. clean st2 z \<longrightarrow> clean st1 z"
    by blast+
  from ih(2) c(1) have "clean st1 var" by blast
  moreover from ih(2) c(2) have "\<forall>z. clean st z \<longrightarrow> clean st1 z" by blast
  ultimately show ?case using ih(1) by simp
qed

lemma node_words_noop:
  "\<forall>w \<in> set ws. length w = var_length var \<Longrightarrow> node_words var ws st = Inr st"
  by (induction ws) simp_all

lemma node_vars_noop:
  "\<forall>v \<in> set vars. v \<in> fst ` set (domains st) \<and> clean st v \<Longrightarrow> node_vars vars st = Inr st"
proof (induction vars)
  case Nil
  show ?case by simp
next
  case (Cons var vars)
  from Cons.prems obtain d where d: "map_of (domains st) var = Some d"
    using key_map_of[of var "domains st"] by auto
  with Cons.prems have "\<forall>w \<in> set d. length w = var_length var" by (simp add: clean_def)
  from node_words_noop[OF this] have "node_words var d st = Inr st" .
  moreover from Cons have "node_vars vars st = Inr st" by simp
  ultimately show ?case using d by (simp add: lookup_def)
qed

lemma enforce_node_consistency_twice:
  assumes "enforce_node_consistency st = Inr st1"
  shows "enforce_node_consistency st1 = Inr st1"
proof -
  from assms have nv: "node_vars (map fst (domains st)) st = Inr st1"
    by (simp add: enforce_node_consistency_def)
  from node_vars_shape[OF nv] have keys: "map fst (domains st1) = map fst (domains st)"
    by (simp add: same_shape_def)
  from node_vars_clean[OF nv] have "\<forall>v \<in> set (map fst (domains st)). clean st1 v" by blast
  then have "\<forall>v \<in> set (map fst (domains st1)). clean st1 v" unfolding keys .
  moreover have "\<forall>v \<in> set (map fst (domains st1)). v \<in> fst ` set (domains st1)" by simp
  ultimately have "\<forall>v \<in> set (map fst (domains st1)). v \<in> fst ` set (domains st1) \<and> clean st1 v"
    by blast
  from node_vars_noop[OF this] show ?thesis by (simp add: enforce_node_consistency_def)
qed

lemma revise_words_noop:
  "lookup (domains st) y = Inr dy \<Longrightarrow> \<forall>v \<in> set dy. iy < length v \<Longrightarrow>
   \<forall>w \<in> set ws. ix < length w \<and> (\<exists>v \<in> set dy. w ! ix = v ! iy) \<Longrightarrow>
   revise_words x y ix iy ws r st = Inr (r, st)"
proof (induction ws)
  case Nil
  show ?case by simp
next
  case (Cons w ws)
  from Cons.prems have "any_agree w ix iy dy = Inr (\<exists>v \<in> set dy. w ! ix = v ! iy)"
    by (intro any_agree_in_range) simp_all
  with Cons.prems have "any_agree w ix iy dy = Inr True" by simp
  moreover from Cons have "revise_words x y ix iy ws r st = Inr (r, st)" by simp
  ultimately show ?case using Cons.prems(1) by simp
qed


lemma revise_noop:
  assumes wf: "wf_crossword (crossword st)"
    and keys: "map fst (domains st) = variables (crossword st)"
    and x: "x \<in> set (variables (crossword st))" and y: "y \<in> set (variables (crossword st))"
    and ne: "x \<noteq> y" and xy: "arc_ok st x y" and yx: "arc_ok st y x"
  shows "revise st x y = Inr (False, st)"
proof (cases "overlaps (crossword st) (x, y)")
  case None
  with wf_overlap_defined[OF wf x y ne] show ?thesis by simp
next
  case (Some e)
  show ?thesis
  proof (cases e)
    case None
    with Some show ?thesis by (simp add: revise_def)
  next
    case (Some p)
    obtain ix iy where p: "p = (ix, iy)" by (cases p)
    with Some \<open>overlaps (crossword st) (x, y) = Some e\<close>
    have ov: "overlaps (crossword st) (x, y) = Some (Some (ix, iy))" by simp
    note sym = wf_overlap(1)[OF wf x y ov]
    from keys_member[OF keys x] obtain dx where dx: "map_of (domains st) x = Some dx" by blast
    from keys_member[OF keys y] obtain dy where dy: "map_of (domains st) y = Some dy" by blast
    have ry: "\<forall>v \<in> set dy. iy < length v"
    proof
      fix v assume "v \<in> set dy"
      with yx sym dy have "supported st x iy ix v" unfolding arc_ok_def by blast
      then show "iy < length v" by (auto simp: supported_def)
    qed
    have rx: "\<forall>w \<in> set dx. ix < length w \<and> (\<exists>v \<in> set dy. w ! ix = v ! iy)"
    proof
      fix w assume "w \<in> set dx"
      with xy ov dx have "supported st y ix iy w" unfolding arc_ok_def by blast
      with dy show "ix < length w \<and> (\<exists>v \<in> set dy. w ! ix = v ! iy)"
        by (auto simp: supported_def)
    qed
    from dy have "lookup (domains st) y = Inr dy" by (simp add: lookup_Inr)
    from revise_words_noop[OF this ry rx, of x False] ov dx show ?thesis
      by (simp add: revise_def lookup_def)
  qed
qed

lemma ac3_loop_noop:
  "\<forall>a \<in> set arcs. revise st (fst a) (snd a) = Inr (False, st) \<Longrightarrow> ac3_loop arcs st = Inr (True, st)"
proof (induction arcs)
  case Nil
  show ?case by simp
next
  case (Cons a arcs)
  obtain x y where a: "a = (x, y)" by (cases a)
  with Cons.prems have "revise st x y = Inr (False, st)" by simp
  moreover from Cons have "ac3_loop arcs st = Inr (True, st)" by simp
  ultimately show ?case using a by simp
qed

lemma ac3_twice:
  assumes wf: "wf_crossword (crossword st)"
    and keys: "map fst (domains st) = variables (crossword st)"
    and run: "ac3 st None = Inr (True, st1)"
  shows "ac3 st1 None = Inr (True, st1)"
proof -
  from ac3_shape[OF run] have cw: "crossword st1 = crossword st"
    and k1: "map fst (domains st1) = map fst (domains st)" by (simp_all add: same_shape_def)
  from wf cw have wf1: "wf_crossword (crossword st1)" by simp
  from keys cw k1 have keys1: "map fst (domains st1) = variables (crossword st1)" by simp
  have "\<forall>a \<in> set (get_arc_queue st1 None). revise st1 (fst a) (snd a) = Inr (False, st1)"
  proof
    fix a assume "a \<in> set (get_arc_queue st1 None)"
    then obtain x y where a: "a = (x, y)" and x: "x \<in> set (variables (crossword st1))"
      and n: "y \<in> set (neighbors (crossword st1) x)"
      by (auto simp: get_arc_queue_def)
    from n wf_neighbors[OF wf1 x, of y] obtain i j where
      y: "y \<in> set (variables (crossword st1))" and
      ov: "overlaps (crossword st1) (x, y) = Some (Some (i, j))" by blast
    note ne = wf_overlap(4)[OF wf1 x y ov]
    from x y cw have xv: "x \<in> set (variables (crossword st))" and yv: "y \<in> set (variables (crossword st))"
      by simp_all
    from revise_noop[OF wf1 keys1 x y ne ac3_default_arc_ok[OF wf run xv yv]
        ac3_default_arc_ok[OF wf run yv xv]] a
    show "revise st1 (fst a) (snd a) = Inr (False, st1)" by simp
  qed
  from ac3_loop_noop[OF this] show ?thesis by (simp add: ac3_def)
qed

text \<open>
  Claim C8. A second run of \<^verbatim>\<open>enforce_node_consistency\<close> right after a first returns the
  creator unchanged. Over a well-formed problem graph, with the crossword's variables as
  the keys of the domain store, a second run of \<^verbatim>\<open>ac3()\<close> with the default worklist
  right after a first that returned \<open>True\<close> returns \<open>True\<close> and the creator unchanged. In
  both cases the domains after the second run are the domains after the first.
\<close>

theorem pruning_twice_changes_nothing:
  "(enforce_node_consistency st = Inr st1 \<longrightarrow> enforce_node_consistency st1 = Inr st1) \<and>
   (wf_crossword (crossword st) \<and> map fst (domains st) = variables (crossword st) \<and>
    ac3 st None = Inr (True, st2) \<longrightarrow> ac3 st2 None = Inr (True, st2))"
  using enforce_node_consistency_twice[of st st1] ac3_twice[of st st2] by blast

theorem pruning_twice_changes_nothing_witness:
  "enforce_node_consistency (init ex_crossword) = Inr ex_node \<and>
   enforce_node_consistency ex_node = Inr ex_node \<and>
   wf_crossword (crossword ex_node) \<and>
   map fst (domains ex_node) = variables (crossword ex_node) \<and>
   ac3 ex_node None = Inr (True, ex_arc) \<and> ac3 ex_arc None = Inr (True, ex_arc)"
proof -
  have wf: "wf_crossword (crossword ex_node)" using ex_wf by (simp add: ex_node_def)
  have k: "map fst (domains ex_node) = variables (crossword ex_node)" by (simp add: ex_defs)
  from pruning_twice_changes_nothing[of "init ex_crossword" ex_node] ex_enforce_node_consistency
  have 1: "enforce_node_consistency ex_node = Inr ex_node" by blast
  from pruning_twice_changes_nothing[of ex_node _ ex_arc] wf k ex_ac3
  have 2: "ac3 ex_arc None = Inr (True, ex_arc)" by blast
  from 1 2 wf k ex_enforce_node_consistency ex_ac3 show ?thesis by blast
qed

section \<open>The search is exhaustive\<close>

text \<open>
  \<open>domains_are_sets\<close>: every stored domain is a set (no word twice).
  \<open>in_vocabulary\<close>: every stored domain holds words of the vocabulary only.
  \<open>ready\<close>: the creator as it is between the steps of \<^verbatim>\<open>solve\<close> once node consistency
  has run.
\<close>

definition domains_are_sets :: "CrosswordCreator \<Rightarrow> bool" where
  "domains_are_sets st \<longleftrightarrow> (\<forall>v d. map_of (domains st) v = Some d \<longrightarrow> distinct d)"

definition in_vocabulary :: "CrosswordCreator \<Rightarrow> bool" where
  "in_vocabulary st \<longleftrightarrow>
     (\<forall>v d. map_of (domains st) v = Some d \<longrightarrow> set d \<subseteq> set (words (crossword st)))"

definition ready :: "CrosswordCreator \<Rightarrow> bool" where
  "ready st \<longleftrightarrow>
     wf_crossword (crossword st) \<and> map fst (domains st) = variables (crossword st) \<and>
     domains_are_sets st \<and> in_vocabulary st \<and> (\<forall>v. clean st v)"

text \<open>
  A filling of the grid: a word for every variable, of the variable's length, no word
  twice, agreeing at every overlap. \<open>fits\<close>: the filling takes every word from the
  variable's current domain.
\<close>

definition fills :: "Crossword \<Rightarrow> (Variable \<Rightarrow> string) \<Rightarrow> bool" where
  "fills c g \<longleftrightarrow>
     inj_on g (set (variables c)) \<and>
     (\<forall>v \<in> set (variables c). length (g v) = var_length v) \<and>
     (\<forall>x \<in> set (variables c). \<forall>y \<in> set (variables c). \<forall>i j.
        overlaps c (x, y) = Some (Some (i, j)) \<longrightarrow> g x ! i = g y ! j)"

definition fits :: "CrosswordCreator \<Rightarrow> (Variable \<Rightarrow> string) \<Rightarrow> bool" where
  "fits st g \<longleftrightarrow>
     (\<forall>v \<in> set (variables (crossword st)). \<exists>d. map_of (domains st) v = Some d \<and> g v \<in> set d)"

lemma node_words_spec:
  "lookup (domains st) var = Inr cur \<Longrightarrow> distinct ws \<Longrightarrow> set ws \<subseteq> set cur \<Longrightarrow>
   node_words var ws st =
     Inr (st\<lparr>domains := AList.update var
            (filter (\<lambda>w. w \<notin> set ws \<or> length w = var_length var) cur) (domains st)\<rparr>)"
proof (induction ws arbitrary: st cur)
  case Nil
  then show ?case by (simp add: lookup_Inr update_triv)
next
  case (Cons w ws)
  show ?case
  proof (cases "length w = var_length var")
    case True
    have fl: "filter (\<lambda>u. u \<notin> set ws \<or> length u = var_length var) cur
            = filter (\<lambda>u. u \<notin> set (w # ws) \<or> length u = var_length var) cur"
      using True by (intro filter_cong) auto
    have "node_words var (w # ws) st = node_words var ws st" using True by simp
    also have "\<dots> = Inr (st\<lparr>domains := AList.update var
            (filter (\<lambda>u. u \<notin> set ws \<or> length u = var_length var) cur) (domains st)\<rparr>)"
      using Cons.prems by (intro Cons.IH) auto
    finally show ?thesis unfolding fl .
  next
    case False
    let ?st2 = "st\<lparr>domains := AList.update var (removeAll w cur) (domains st)\<rparr>"
    have wcur: "w \<in> set cur" using Cons.prems by simp
    have step: "node_words var (w # ws) st = node_words var ws ?st2"
      using False Cons.prems(1) wcur by (simp add: set_remove_def)
    have ih: "node_words var ws ?st2 = Inr (?st2\<lparr>domains := AList.update var
            (filter (\<lambda>u. u \<notin> set ws \<or> length u = var_length var) (removeAll w cur))
            (domains ?st2)\<rparr>)"
    proof (rule Cons.IH)
      show "lookup (domains ?st2) var = Inr (removeAll w cur)" by (simp add: lookup_update_same)
      show "distinct ws" using Cons.prems by simp
      show "set ws \<subseteq> set (removeAll w cur)" using Cons.prems by auto
    qed
    have fl: "filter (\<lambda>u. u \<notin> set ws \<or> length u = var_length var) (removeAll w cur)
            = filter (\<lambda>u. u \<notin> set (w # ws) \<or> length u = var_length var) cur"
      using False by (induction cur) auto
    show ?thesis unfolding step ih fl by simp
  qed
qed

lemma node_vars_total:
  "domains_are_sets st \<Longrightarrow> set vars \<subseteq> fst ` set (domains st) \<Longrightarrow>
   \<exists>st1. node_vars vars st = Inr st1 \<and> domains_are_sets st1"
proof (induction vars arbitrary: st)
  case Nil
  then show ?case by simp
next
  case (Cons var vars)
  from Cons.prems(2) obtain d where d: "map_of (domains st) var = Some d"
    using key_map_of[of var "domains st"] by auto
  with Cons.prems(1) have dd: "distinct d" by (simp add: domains_are_sets_def)
  let ?st2 = "st\<lparr>domains := AList.update var
            (filter (\<lambda>w. w \<notin> set d \<or> length w = var_length var) d) (domains st)\<rparr>"
  from d have l: "lookup (domains st) var = Inr d" by (simp add: lookup_Inr)
  from node_words_spec[OF l dd subset_refl] have nw: "node_words var d st = Inr ?st2" .
  have s2: "domains_are_sets ?st2"
    using Cons.prems(1) dd by (auto simp: domains_are_sets_def update_conv')
  have k2: "set vars \<subseteq> fst ` set (domains ?st2)"
    using Cons.prems(2) by (auto simp: update_key_set)
  from Cons.IH[OF s2 k2] obtain st1 where "node_vars vars ?st2 = Inr st1" "domains_are_sets st1"
    by blast
  with l nw show ?case by simp
qed

lemma node_words_keeps:
  assumes "node_words var ws st = Inr st1" and "map_of (domains st) v = Some d"
    and "w \<in> set d" and "length w = var_length v"
  shows "\<exists>d1. map_of (domains st1) v = Some d1 \<and> w \<in> set d1"
proof (cases "v = var")
  case True
  with node_words_result[OF assms(1), of d] assms(2-4) show ?thesis by auto
next
  case False
  show ?thesis
  proof (cases "map_of (domains st) var")
    case None
    have "node_words var ws st = Inr st1 \<Longrightarrow> map_of (domains st) var = None \<Longrightarrow> st1 = st"
      by (induction ws) (auto simp: lookup_def split: if_splits)
    with assms None show ?thesis by auto
  next
    case (Some cur)
    from node_words_result[OF assms(1) Some] False assms(2,3) show ?thesis by simp
  qed
qed

lemma node_words_shrinks:
  assumes "node_words var ws st = Inr st1" and "map_of (domains st1) v = Some d1"
  shows "\<exists>d. map_of (domains st) v = Some d \<and> set d1 \<subseteq> set d"
proof (cases "map_of (domains st) var")
  case None
  have "node_words var ws st = Inr st1 \<Longrightarrow> map_of (domains st) var = None \<Longrightarrow> st1 = st"
    by (induction ws) (auto simp: lookup_def split: if_splits)
  with assms None show ?thesis by auto
next
  case (Some cur)
  note r = node_words_result[OF assms(1) Some]
  show ?thesis
  proof (cases "v = var")
    case True
    with r assms(2) Some show ?thesis by auto
  next
    case False
    with r assms(2) show ?thesis by simp
  qed
qed

lemma node_vars_keeps:
  "node_vars vars st = Inr st1 \<Longrightarrow> map_of (domains st) v = Some d \<Longrightarrow> w \<in> set d \<Longrightarrow>
   length w = var_length v \<Longrightarrow> \<exists>d1. map_of (domains st1) v = Some d1 \<and> w \<in> set d1"
proof (induction vars arbitrary: st d)
  case Nil
  then show ?case by simp
next
  case (Cons var vars)
  from Cons.prems(1) obtain dv st2 where
    nw: "node_words var dv st = Inr st2" and rec: "node_vars vars st2 = Inr st1"
    by (auto split: sum.splits)
  from node_words_keeps[OF nw Cons.prems(2,3,4)] obtain d2 where
    "map_of (domains st2) v = Some d2" "w \<in> set d2" by blast
  from Cons.IH[OF rec this Cons.prems(4)] show ?case .
qed

lemma node_vars_shrinks:
  "node_vars vars st = Inr st1 \<Longrightarrow> map_of (domains st1) v = Some d1 \<Longrightarrow>
   \<exists>d. map_of (domains st) v = Some d \<and> set d1 \<subseteq> set d"
proof (induction vars arbitrary: st)
  case Nil
  then show ?case by simp
next
  case (Cons var vars)
  from Cons.prems(1) obtain dv st2 where
    nw: "node_words var dv st = Inr st2" and rec: "node_vars vars st2 = Inr st1"
    by (auto split: sum.splits)
  from Cons.IH[OF rec Cons.prems(2)] obtain d2 where
    d2: "map_of (domains st2) v = Some d2" "set d1 \<subseteq> set d2" by blast
  from node_words_shrinks[OF nw d2(1)] d2(2) show ?case by blast
qed


lemma map_of_init:
  "map_of (domains (init c)) v = (if v \<in> set (variables c) then Some (words c) else None)"
  by (simp add: init_def map_of_map_restrict restrict_map_def)

lemma ready_parts:
  assumes "ready st"
  shows "wf_crossword (crossword st)" and "map fst (domains st) = variables (crossword st)"
    and "domains_are_sets st" and "in_vocabulary st" and "clean st v"
  using assms by (simp_all add: ready_def)

lemma enforce_node_consistency_ready:
  assumes wf: "wf_crossword c"
  shows "\<exists>st1. enforce_node_consistency (init c) = Inr st1 \<and> ready st1 \<and> crossword st1 = c \<and>
           (\<forall>g. (\<forall>v \<in> set (variables c). g v \<in> set (words c) \<and> length (g v) = var_length v)
                 \<longrightarrow> fits st1 g)"
proof -
  have keys0: "map fst (domains (init c)) = variables c" by (simp add: init_def comp_def)
  have sets0: "domains_are_sets (init c)"
    using wf by (auto simp: domains_are_sets_def map_of_init wf_crossword_def split: if_splits)
  have "set (map fst (domains (init c))) \<subseteq> fst ` set (domains (init c))" by simp
  from node_vars_total[OF sets0 this] obtain st1 where
    nv: "node_vars (map fst (domains (init c))) (init c) = Inr st1" and sets1: "domains_are_sets st1"
    by blast
  from node_vars_shape[OF nv] keys0 have keys1: "map fst (domains st1) = variables c"
    and cw: "crossword st1 = c" by (simp_all add: same_shape_def init_def)
  have clean1: "clean st1 v" for v
  proof (cases "v \<in> set (map fst (domains st1))")
    case True
    with node_vars_clean[OF nv] keys0 keys1 show ?thesis by simp
  next
    case False
    then have "map_of (domains st1) v = None" by (simp add: map_of_eq_None_iff)
    then show ?thesis by (simp add: clean_def)
  qed
  have voc: "in_vocabulary st1"
    unfolding in_vocabulary_def
  proof (intro allI impI)
    fix v d1 assume "map_of (domains st1) v = Some d1"
    from node_vars_shrinks[OF nv this] obtain d where
      "map_of (domains (init c)) v = Some d" "set d1 \<subseteq> set d" by blast
    with cw show "set d1 \<subseteq> set (words (crossword st1))"
      by (auto simp: map_of_init split: if_splits)
  qed
  have fit: "fits st1 g"
    if g: "\<forall>v \<in> set (variables c). g v \<in> set (words c) \<and> length (g v) = var_length v" for g
    unfolding fits_def cw
  proof
    fix v assume v: "v \<in> set (variables c)"
    then have m: "map_of (domains (init c)) v = Some (words c)" by (simp add: map_of_init)
    from g v have "g v \<in> set (words c)" "length (g v) = var_length v" by simp_all
    from node_vars_keeps[OF nv m this]
    show "\<exists>d. map_of (domains st1) v = Some d \<and> g v \<in> set d" .
  qed
  from wf keys1 cw sets1 voc clean1 have "ready st1" by (simp add: ready_def)
  with nv cw fit show ?thesis by (auto simp: enforce_node_consistency_def)
qed


lemma cleanD: "clean st v \<Longrightarrow> map_of (domains st) v = Some d \<Longrightarrow> w \<in> set d \<Longrightarrow> length w = var_length v"
  by (simp add: clean_def)

lemma revise_ready:
  assumes rd: "ready st"
    and x: "x \<in> set (variables (crossword st))" and y: "y \<in> set (variables (crossword st))"
    and ov: "overlaps (crossword st) (x, y) = Some (Some (ix, iy))"
  shows "\<exists>r st1. revise st x y = Inr (r, st1) \<and> ready st1 \<and> crossword st1 = crossword st \<and>
           (\<forall>g. fills (crossword st) g \<and> fits st g \<longrightarrow> fits st1 g)"
proof -
  note wf = ready_parts(1)[OF rd] and keys = ready_parts(2)[OF rd]
  note ne = wf_overlap(4)[OF wf x y ov] and rng = wf_overlap(2,3)[OF wf x y ov]
  from keys_member[OF keys x] obtain dx where dx: "map_of (domains st) x = Some dx" by blast
  from keys_member[OF keys y] obtain dy where dy: "map_of (domains st) y = Some dy" by blast
  from ready_parts(3)[OF rd] dx have ddx: "distinct dx" by (simp add: domains_are_sets_def)
  have rx: "\<forall>w \<in> set dx. ix < length w"
    using cleanD[OF ready_parts(5)[OF rd] dx] rng(1) by simp
  have ry: "\<forall>v \<in> set dy. iy < length v"
    using cleanD[OF ready_parts(5)[OF rd] dy] rng(2) by simp
  let ?sup = "\<lambda>w. \<exists>v \<in> set dy. w ! ix = v ! iy"
  let ?st1 = "st\<lparr>domains := AList.update x (filter (\<lambda>w. w \<notin> set dx \<or> ?sup w) dx) (domains st)\<rparr>"
  from dx dy have lx: "lookup (domains st) x = Inr dx" and ly: "lookup (domains st) y = Inr dy"
    by (simp_all add: lookup_Inr)
  from revise_words_spec[OF ne ry ly lx ddx subset_refl rx, of False] ov lx
  have rv: "revise st x y = Inr (False \<or> (\<exists>w \<in> set dx. \<not> ?sup w), ?st1)"
    by (simp add: revise_def)
  note m1 = update_conv' 
  have k1: "map fst (domains ?st1) = variables (crossword ?st1)"
    using keys update_present_keys[OF dx] by simp
  have s1: "domains_are_sets ?st1"
    using ready_parts(3)[OF rd] ddx by (auto simp: domains_are_sets_def m1 split: if_splits)
  have v1: "in_vocabulary ?st1"
    using ready_parts(4)[OF rd] dx by (auto simp: in_vocabulary_def m1 split: if_splits)
  have c1: "clean ?st1 v" for v
    using ready_parts(5)[OF rd, of v] dx by (auto simp: clean_def m1 split: if_splits)
  have rd1: "ready ?st1" using wf k1 s1 v1 c1 by (simp add: ready_def)
  have fit: "fits ?st1 g" if g: "fills (crossword st) g \<and> fits st g" for g
    unfolding fits_def
  proof
    fix v assume "v \<in> set (variables (crossword ?st1))"
    then have v: "v \<in> set (variables (crossword st))" by simp
    with g obtain d where d: "map_of (domains st) v = Some d" "g v \<in> set d"
      unfolding fits_def by blast
    show "\<exists>d. map_of (domains ?st1) v = Some d \<and> g v \<in> set d"
    proof (cases "v = x")
      case False
      with d show ?thesis by (simp add: m1)
    next
      case True
      from g y dy have gy: "g y \<in> set dy" unfolding fits_def by auto
      from g x y ov have "g x ! ix = g y ! iy" unfolding fills_def by blast
      with gy have "?sup (g x)" by blast
      with True d dx show ?thesis by (simp add: m1)
    qed
  qed
  from rv rd1 fit show ?thesis by force
qed

lemma ac3_loop_ready:
  "ready st \<Longrightarrow>
   \<forall>a \<in> set arcs. fst a \<in> set (variables (crossword st)) \<and> snd a \<in> set (variables (crossword st)) \<and>
      is_pair (overlaps (crossword st) a) \<Longrightarrow>
   \<exists>b st'. ac3_loop arcs st = Inr (b, st') \<and> ready st' \<and> crossword st' = crossword st \<and>
      (\<forall>g. fills (crossword st) g \<and> fits st g \<longrightarrow> fits st' g)"
proof (induction arcs st rule: ac3_loop.induct)
  case (1 st)
  then show ?case by auto
next
  case (2 x y arcs st)
  let ?c = "crossword st"
  from "2.prems"(2) have x: "x \<in> set (variables ?c)" and y: "y \<in> set (variables ?c)"
    and pr: "is_pair (overlaps ?c (x, y))" by simp_all
  from pr obtain ix iy where ov: "overlaps ?c (x, y) = Some (Some (ix, iy))"
    unfolding is_pair_iff by blast
  from revise_ready[OF "2.prems"(1) x y ov] obtain revised st1 where
    rv: "revise st x y = Inr (revised, st1)" and rd1: "ready st1" and cw: "crossword st1 = ?c"
    and fit: "\<forall>g. fills ?c g \<and> fits st g \<longrightarrow> fits st1 g" by blast
  note wf = ready_parts(1)[OF "2.prems"(1)]
  have rest: "\<forall>a \<in> set arcs. fst a \<in> set (variables (crossword st1)) \<and>
      snd a \<in> set (variables (crossword st1)) \<and> is_pair (overlaps (crossword st1) a)"
    using "2.prems"(2) cw by simp
  show ?case
  proof (cases revised)
    case False
    from "2.IH"(2)[OF rv refl False rd1 rest] obtain b st' where
      "ac3_loop arcs st1 = Inr (b, st')" "ready st'" "crossword st' = crossword st1"
      "\<forall>g. fills (crossword st1) g \<and> fits st1 g \<longrightarrow> fits st' g" by blast
    with rv False cw fit show ?thesis by auto
  next
    case True
    from keys_member[OF ready_parts(2)[OF rd1]] x cw obtain dx where
      dx: "lookup (domains st1) x = Inr dx" by (auto simp: lookup_Inr)
    show ?thesis
    proof (cases "length dx = 0")
      case e: True
      with rv True dx have "ac3_loop ((x, y) # arcs) st = Inr (False, st1)" by simp
      with rd1 cw fit show ?thesis by blast
    next
      case ne: False
      let ?new = "map (\<lambda>neighbor. (neighbor, x))
          (filter (\<lambda>neighbor. neighbor \<noteq> y) (neighbors (crossword st1) x))"
      have new: "\<forall>a \<in> set ?new. fst a \<in> set (variables (crossword st1)) \<and>
          snd a \<in> set (variables (crossword st1)) \<and> is_pair (overlaps (crossword st1) a)"
      proof
        fix a assume "a \<in> set ?new"
        then obtain n where a: "a = (n, x)" and n: "n \<in> set (neighbors ?c x)"
          using cw by auto
        from n wf_neighbors[OF wf x, of n] obtain i j where
          nv: "n \<in> set (variables ?c)" and o: "overlaps ?c (x, n) = Some (Some (i, j))" by blast
        from wf_overlap(1)[OF wf x nv o] have "is_pair (overlaps ?c (n, x))"
          unfolding is_pair_iff by blast
        with a nv x cw show "fst a \<in> set (variables (crossword st1)) \<and>
          snd a \<in> set (variables (crossword st1)) \<and> is_pair (overlaps (crossword st1) a)"
          by simp
      qed
      from rest new have all: "\<forall>a \<in> set (arcs @ ?new). fst a \<in> set (variables (crossword st1)) \<and>
          snd a \<in> set (variables (crossword st1)) \<and> is_pair (overlaps (crossword st1) a)"
        by auto
      from "2.IH"(1)[OF rv refl True dx ne rd1 all] obtain b st' where
        "ac3_loop (arcs @ ?new) st1 = Inr (b, st')" "ready st'" "crossword st' = crossword st1"
        "\<forall>g. fills (crossword st1) g \<and> fits st1 g \<longrightarrow> fits st' g" by blast
      with rv True dx ne cw fit show ?thesis by auto
    qed
  qed
qed

lemma ac3_ready:
  assumes rd: "ready st"
  shows "\<exists>b st'. ac3 st None = Inr (b, st') \<and> ready st' \<and> crossword st' = crossword st \<and>
      (\<forall>g. fills (crossword st) g \<and> fits st g \<longrightarrow> fits st' g)"
proof -
  note wf = ready_parts(1)[OF rd]
  have "\<forall>a \<in> set (get_arc_queue st None). fst a \<in> set (variables (crossword st)) \<and>
      snd a \<in> set (variables (crossword st)) \<and> is_pair (overlaps (crossword st) a)"
  proof
    fix a assume "a \<in> set (get_arc_queue st None)"
    then obtain x y where a: "a = (x, y)" and x: "x \<in> set (variables (crossword st))"
      and n: "y \<in> set (neighbors (crossword st) x)"
      by (auto simp: get_arc_queue_def)
    from n wf_neighbors[OF wf x, of y] a x
    show "fst a \<in> set (variables (crossword st)) \<and>
      snd a \<in> set (variables (crossword st)) \<and> is_pair (overlaps (crossword st) a)"
      unfolding is_pair_iff by auto
  qed
  from ac3_loop_ready[OF rd this] show ?thesis by (simp add: ac3_def)
qed

end
